theory Spec2Isabelle
  imports Main
begin

section \<open>Data model\<close>

text \<open>
  The quote editor of \<^verbatim>\<open>src/unnamed/part_000\<close> (second script, "Dynamic Quote
  Generator with Server Sync & Conflict Handling"). A local quote is
  \<^verbatim>\<open>{ id, text, category, lastModified (ISO), pendingSync }\<close>; a record of the
  server snapshot is \<^verbatim>\<open>{ id, text, category, lastModified }\<close>; a conflict is
  \<^verbatim>\<open>{ id, local, server }\<close>. A \<^verbatim>\<open>lastModified\<close> of the server that is falsy (absent
  or empty) is the empty string.

  An id is a JavaScript value. \<^verbatim>\<open>syncWithServer\<close> and the conflict panel read it through
  \<^verbatim>\<open>String(id)\<close>, and the field \<open>q_id\<close> (\<open>s_id\<close>) is that string; the simulated
  server alone compares two ids with \<^verbatim>\<open>===\<close>, which also asks for the same type, and
  the field \<open>q_id_type\<close> (\<open>s_id_type\<close>) keeps the type of the value. Two strings, two
  numbers or two booleans are \<^verbatim>\<open>===\<close> exactly when their strings are equal. An id that
  is an object, which only an import can bring in, is \<open>IdOther\<close> like a boolean: there
  the model compares the strings where the script compares references.
\<close>

datatype id_type = IdString | IdNumber | IdOther

record quote =
  q_id :: string
  q_id_type :: id_type
  q_text :: string
  q_category :: string
  q_lastModified :: string
  q_pendingSync :: bool

record server_quote =
  s_id :: string
  s_id_type :: id_type
  s_text :: string
  s_category :: string
  s_lastModified :: string

record conflict =
  c_id :: string
  c_local :: quote
  c_server :: server_quote

text \<open>
  The built-ins the script reads from its environment: \<^verbatim>\<open>new Date(s).getTime()\<close>
  (\<open>None\<close> is \<^verbatim>\<open>NaN\<close>, the result for a string that is no date), the ISO text of an
  instant, the successive readings of the clock, and the tokens \<^verbatim>\<open>uid()\<close> draws.
  Every reading of the clock advances a counter.
\<close>

record env =
  getTime :: "string \<Rightarrow> int option"
  toISO :: "int \<Rightarrow> string"
  clock :: "nat \<Rightarrow> int"
  uid :: "nat \<Rightarrow> string"

definition SERVER_WINS_BY_DEFAULT :: bool where
  "SERVER_WINS_BY_DEFAULT = True"

definition nowISO :: "env \<Rightarrow> nat \<Rightarrow> string" where
  "nowISO e k = toISO e (clock e k)"

definition deepClone :: "'a \<Rightarrow> 'a" where
  \<comment> \<open>\<^verbatim>\<open>JSON.parse(JSON.stringify(obj))\<close>: a fresh copy with the same fields\<close>
  "deepClone x = x"

definition strict_neq :: "int option \<Rightarrow> int option \<Rightarrow> bool" where
  \<comment> \<open>\<^verbatim>\<open>a !== b\<close> on numbers: \<^verbatim>\<open>NaN\<close> differs from everything, itself included\<close>
  "strict_neq a b = (a = None \<or> b = None \<or> a \<noteq> b)"

definition lm_or_now :: "env \<Rightarrow> string \<Rightarrow> nat \<Rightarrow> string" where
  \<comment> \<open>\<^verbatim>\<open>serverItem.lastModified || nowISO()\<close>, the value\<close>
  "lm_or_now e lm k = (if lm = [] then nowISO e k else lm)"

definition tick_after :: "string \<Rightarrow> nat \<Rightarrow> nat" where
  \<comment> \<open>the clock counter after \<^verbatim>\<open>lm || nowISO()\<close>: the clock is read only for a falsy \<open>lm\<close>\<close>
  "tick_after lm k = (if lm = [] then Suc k else k)"

section \<open>The insertion-ordered Map of JavaScript\<close>

text \<open>
  A \<^verbatim>\<open>Map\<close> keeps its keys in the order of their first insertion; \<^verbatim>\<open>set\<close> on a key
  that is present replaces the value where it stands.
\<close>

fun jsmap_set :: "'k \<Rightarrow> 'v \<Rightarrow> ('k \<times> 'v) list \<Rightarrow> ('k \<times> 'v) list" where
  "jsmap_set k v [] = [(k, v)]"
| "jsmap_set k v (p # m) = (if fst p = k then (k, v) # m else p # jsmap_set k v m)"

fun new_Map_from :: "('k \<times> 'v) list \<Rightarrow> ('k \<times> 'v) list \<Rightarrow> ('k \<times> 'v) list" where
  "new_Map_from m [] = m"
| "new_Map_from m (p # ps) = new_Map_from (jsmap_set (fst p) (snd p) m) ps"

definition new_Map :: "('k \<times> 'v) list \<Rightarrow> ('k \<times> 'v) list" where
  "new_Map ps = new_Map_from [] ps"

definition jsmap_get :: "('k \<times> 'v) list \<Rightarrow> 'k \<Rightarrow> 'v option" where
  "jsmap_get m k = map_of m k"

definition jsmap_has :: "('k \<times> 'v) list \<Rightarrow> 'k \<Rightarrow> bool" where
  "jsmap_has m k = (map_of m k \<noteq> None)"

definition jsmap_values :: "('k \<times> 'v) list \<Rightarrow> 'v list" where
  "jsmap_values m = map snd m"

section \<open>syncWithServer: the merge\<close>

definition localMap_of :: "quote list \<Rightarrow> (string \<times> quote) list" where
  \<comment> \<open>\<^verbatim>\<open>new Map(quotes.map(q => [String(q.id), q]))\<close>\<close>
  "localMap_of qs = new_Map (map (\<lambda>q. (q_id q, q)) qs)"

definition serverMap_of :: "server_quote list \<Rightarrow> (string \<times> server_quote) list" where
  \<comment> \<open>\<^verbatim>\<open>new Map(serverQuotes.map(s => [String(s.id), s]))\<close>\<close>
  "serverMap_of ss = new_Map (map (\<lambda>s. (s_id s, s)) ss)"

record merge_state =
  localMap :: "(string \<times> quote) list"
  newLocal :: "quote list"
  conflicts :: "conflict list"
  tick :: nat

definition server_version :: "env \<Rightarrow> string \<Rightarrow> server_quote \<Rightarrow> nat \<Rightarrow> quote" where
  \<comment> \<open>the object literal stored for a server item, its \<open>lastModified\<close> read at counter \<open>k\<close>;
      its id is the string \<^verbatim>\<open>sid\<close>, or \<^verbatim>\<open>String(serverItem.id)\<close>\<close>
  "server_version e i s k =
     \<lparr> q_id = i, q_id_type = IdString, q_text = s_text s, q_category = s_category s,
       q_lastModified = lm_or_now e (s_lastModified s) k, q_pendingSync = False \<rparr>"

definition serverLM :: "env \<Rightarrow> server_quote \<Rightarrow> nat \<Rightarrow> int option" where
  \<comment> \<open>\<^verbatim>\<open>serverItem.lastModified ? new Date(serverItem.lastModified).getTime() : Date.now()\<close>\<close>
  "serverLM e s k =
     (if s_lastModified s \<noteq> [] then getTime e (s_lastModified s) else Some (clock e k))"

definition is_conflict :: "env \<Rightarrow> quote \<Rightarrow> server_quote \<Rightarrow> nat \<Rightarrow> bool" where
  \<comment> \<open>\<^verbatim>\<open>localLM !== serverLM && localItem.text !== serverItem.text\<close>\<close>
  "is_conflict e l s k =
     (strict_neq (getTime e (q_lastModified l)) (serverLM e s k) \<and> q_text l \<noteq> s_text s)"

definition conflict_entry :: "env \<Rightarrow> string \<Rightarrow> quote \<Rightarrow> server_quote \<Rightarrow> nat \<Rightarrow> conflict" where
  \<comment> \<open>the object pushed on \<^verbatim>\<open>conflicts\<close>, the server's \<open>lastModified\<close> read at counter \<open>k\<close>\<close>
  "conflict_entry e sid localItem serverItem k =
     \<lparr> c_id = sid, c_local = deepClone localItem,
       c_server = deepClone
         (serverItem\<lparr> s_id := sid, s_id_type := IdString,
                       s_lastModified := lm_or_now e (s_lastModified serverItem) k \<rparr>) \<rparr>"

definition merge_step :: "env \<Rightarrow> string \<times> server_quote \<Rightarrow> merge_state \<Rightarrow> merge_state" where
  \<comment> \<open>the body of the loop over \<^verbatim>\<open>serverMap\<close>; the clock is read, for a falsy
      \<open>lastModified\<close>, at \<open>k0\<close> for the comparison, at \<open>k1\<close> for the conflict entry and at
      \<open>k2\<close> for the record stored\<close>
  "merge_step e p st =
     (let sid = fst p; serverItem = snd p; lm = s_lastModified serverItem; k0 = tick st in
      case jsmap_get (localMap st) sid of
        None \<Rightarrow>
          st\<lparr> newLocal := newLocal st @ [server_version e (s_id serverItem) serverItem k0],
              tick := tick_after lm k0 \<rparr>
      | Some localItem \<Rightarrow>
          let k1 = tick_after lm k0 in
          if is_conflict e localItem serverItem k0 then
            let k2 = tick_after lm k1 in
            if SERVER_WINS_BY_DEFAULT then
              st\<lparr> localMap := jsmap_set sid (server_version e sid serverItem k2) (localMap st),
                  conflicts := conflicts st @ [conflict_entry e sid localItem serverItem k1],
                  tick := tick_after lm k2 \<rparr>
            else st\<lparr> conflicts := conflicts st @ [conflict_entry e sid localItem serverItem k1],
                     tick := k2 \<rparr>
          else st\<lparr> tick := k1 \<rparr>)"

fun merge_loop :: "env \<Rightarrow> (string \<times> server_quote) list \<Rightarrow> merge_state \<Rightarrow> merge_state" where
  \<comment> \<open>\<^verbatim>\<open>for (const [sid, serverItem] of serverMap)\<close>\<close>
  "merge_loop e [] st = st"
| "merge_loop e (p # ps) st = merge_loop e ps (merge_step e p st)"

fun add_newLocal :: "quote list \<Rightarrow> (string \<times> quote) list \<Rightarrow> (string \<times> quote) list" where
  \<comment> \<open>\<^verbatim>\<open>for (const item of newLocal) localMap.set(String(item.id), item)\<close>\<close>
  "add_newLocal [] m = m"
| "add_newLocal (item # items) m = add_newLocal items (jsmap_set (q_id item) item m)"

definition merge_phase :: "env \<Rightarrow> quote list \<Rightarrow> server_quote list \<Rightarrow> nat \<Rightarrow> merge_state" where
  \<comment> \<open>steps 1 and 2 of \<^verbatim>\<open>syncWithServer\<close>\<close>
  "merge_phase e qs ss k =
     (let st = merge_loop e (serverMap_of ss)
                 \<lparr> localMap = localMap_of qs, newLocal = [], conflicts = [], tick = k \<rparr>
      in st\<lparr> localMap := add_newLocal (newLocal st) (localMap st) \<rparr>)"

definition merged_of :: "env \<Rightarrow> quote list \<Rightarrow> server_quote list \<Rightarrow> nat \<Rightarrow> quote list" where
  \<comment> \<open>step 3: \<^verbatim>\<open>const merged = Array.from(localMap.values())\<close>\<close>
  "merged_of e qs ss k = jsmap_values (localMap (merge_phase e qs ss k))"

section \<open>syncWithServer: the pushes and the commit\<close>

text \<open>
  What the function writes to \<^verbatim>\<open>localStorage\<close> and to the page (the category list, the
  quote shown, the conflict panel) is left out; its notification is the first component
  of the result.

  \<^verbatim>\<open>pendingToPost\<close> holds references to objects of \<^verbatim>\<open>merged\<close>, and the loop writes
  \<^verbatim>\<open>pendingSync\<close> into them: an object is named here by its position in \<^verbatim>\<open>merged\<close>.
  \<^verbatim>\<open>localOnly\<close> is computed by the script and never read.
\<close>

definition needs_post :: "(string \<times> server_quote) list \<Rightarrow> quote \<Rightarrow> bool" where
  \<comment> \<open>\<^verbatim>\<open>l.pendingSync === true || !serverMap.has(String(l.id))\<close>\<close>
  "needs_post serverMap l = (q_pendingSync l = True \<or> \<not> jsmap_has serverMap (q_id l))"

definition pendingToPost :: "(string \<times> server_quote) list \<Rightarrow> quote list \<Rightarrow> nat list" where
  "pendingToPost serverMap merged =
     filter (\<lambda>i. needs_post serverMap (merged ! i)) [0..<length merged]"

definition localOnly :: "(string \<times> server_quote) list \<Rightarrow> quote list \<Rightarrow> quote list" where
  "localOnly serverMap merged =
     filter (\<lambda>l. \<not> jsmap_has serverMap (q_id l) \<and> q_pendingSync l \<noteq> False) merged"

fun post_loop :: "(quote \<Rightarrow> 'w \<Rightarrow> bool \<times> 'w) \<Rightarrow> nat list \<Rightarrow> quote list \<times> 'w \<Rightarrow> quote list \<times> 'w" where
  \<comment> \<open>\<^verbatim>\<open>for (const lq of pendingToPost)\<close>, the post passed in as \<open>post\<close>\<close>
  "post_loop post [] mw = mw"
| "post_loop post (i # js) mw =
     (let lq = fst mw ! i; postResult = post lq (snd mw) in
      post_loop post js
        ((fst mw)[i := lq\<lparr> q_pendingSync := (if fst postResult then False else True) \<rparr>],
         snd postResult))"

datatype notification =
    ConflictsDetected nat
  | NewQuotesSynced nat
  | SyncFailed
  | ServerChangeAccepted
  | LocalChangePushed
  | LocalPushFailed
  | AllServerAccepted
  | AllLocalPushed

record 'w app_state =
  quotes :: "quote list"
  pendingConflicts :: "conflict list"
  ticks :: nat
  world :: 'w

definition syncWithServer_body ::
  "env \<Rightarrow> (quote \<Rightarrow> 'w \<Rightarrow> bool \<times> 'w) \<Rightarrow> server_quote list \<Rightarrow> 'w app_state
     \<Rightarrow> notification option \<times> 'w app_state" where
  \<comment> \<open>the \<^verbatim>\<open>try\<close> block of \<^verbatim>\<open>syncWithServer\<close> once \<^verbatim>\<open>serverQuotes\<close> is there\<close>
  "syncWithServer_body e post serverQuotes st =
     (let ms = merge_phase e (quotes st) serverQuotes (ticks st);
          merged = jsmap_values (localMap ms);
          serverMap = serverMap_of serverQuotes;
          pushed = post_loop post (pendingToPost serverMap merged) (merged, world st)
      in (if conflicts ms \<noteq> [] then Some (ConflictsDetected (length (conflicts ms)))
          else if newLocal ms \<noteq> [] then Some (NewQuotesSynced (length (newLocal ms)))
          else None,
          st\<lparr> quotes := fst pushed,
              pendingConflicts := (if conflicts ms \<noteq> [] then conflicts ms else pendingConflicts st),
              ticks := tick ms,
              world := snd pushed \<rparr>))"

definition syncWithServer ::
  "env \<Rightarrow> (quote list \<Rightarrow> 'w \<Rightarrow> server_quote list option \<times> 'w) \<Rightarrow> (quote \<Rightarrow> 'w \<Rightarrow> bool \<times> 'w)
     \<Rightarrow> 'w app_state \<Rightarrow> notification option \<times> 'w app_state" where
  \<comment> \<open>\<open>fetch\<close> and \<open>post\<close> are the two awaited calls; a fetch that throws is \<open>None\<close> and
      lands in the \<^verbatim>\<open>catch\<close>\<close>
  "syncWithServer e fetch post st =
     (case fetch (quotes st) (world st) of
        (None, w) \<Rightarrow> (Some SyncFailed, st\<lparr> world := w \<rparr>)
      | (Some serverQuotes, w) \<Rightarrow> syncWithServer_body e post serverQuotes (st\<lparr> world := w \<rparr>))"

section \<open>The server helpers of the script\<close>

text \<open>
  The network is a script of outcomes: each HTTP request consumes the head of its list, and
  an exhausted list is a request that fails. A successful GET is given by the list
  \<^verbatim>\<open>fetchServerQuotes\<close> returns for it, after its mapping to the quote model.
  \<^verbatim>\<open>simulatedServer.store\<close> is the field \<open>store\<close>.
\<close>

record net =
  http_get :: "server_quote list option list"
  http_post :: "bool list"
  store :: "server_quote list"

definition server_item_of :: "quote \<Rightarrow> server_quote" where
  \<comment> \<open>\<^verbatim>\<open>{ id: q.id, text: q.text, category: q.category, lastModified: q.lastModified }\<close>\<close>
  "server_item_of q =
     \<lparr> s_id = q_id q, s_id_type = q_id_type q, s_text = q_text q, s_category = q_category q,
       s_lastModified = q_lastModified q \<rparr>"



definition strict_eq_id :: "server_quote \<Rightarrow> quote \<Rightarrow> bool" where
  \<comment> \<open>\<^verbatim>\<open>s.id === q.id\<close>: the same type and the same value\<close>
  "strict_eq_id s q = (s_id_type s = q_id_type q \<and> s_id s = q_id q)"

fun postQuote :: "quote \<Rightarrow> server_quote list \<Rightarrow> server_quote list" where
  \<comment> \<open>\<^verbatim>\<open>findIndex\<close> takes the first record with the id; none: \<^verbatim>\<open>push\<close>\<close>
  "postQuote q [] = [server_item_of q]"
| "postQuote q (s # ss) =
     (if strict_eq_id s q then server_item_of q # ss else s # postQuote q ss)"


definition postQuoteToServer :: "quote \<Rightarrow> net \<Rightarrow> bool \<times> net" where
  \<comment> \<open>\<^verbatim>\<open>simulatedServer.postQuote\<close> has no failing path: the inner \<^verbatim>\<open>catch\<close> is never entered\<close>
  "postQuoteToServer q w =
     (case http_post w of
        True # rest \<Rightarrow> (True, w\<lparr> http_post := rest \<rparr>)
      | _ \<Rightarrow> (True, w\<lparr> http_post := tl (http_post w), store := postQuote q (store w) \<rparr>))"

section \<open>Resolving conflicts by hand\<close>

fun update_first :: "('a \<Rightarrow> bool) \<Rightarrow> ('a \<Rightarrow> 'a) \<Rightarrow> 'a list \<Rightarrow> 'a list" where
  \<comment> \<open>a write into the object \<^verbatim>\<open>find\<close>/\<^verbatim>\<open>findIndex\<close> returns: the first match\<close>
  "update_first P f [] = []"
| "update_first P f (x # xs) = (if P x then f x # xs else x # update_first P f xs)"

definition acceptServer :: "conflict \<Rightarrow> 'w app_state \<Rightarrow> notification \<times> 'w app_state" where
  \<comment> \<open>\<^verbatim>\<open>keepServerBtn.onclick\<close>\<close>
  "acceptServer conf st =
     (ServerChangeAccepted,
      st\<lparr> quotes := update_first (\<lambda>q. q_id q = c_id conf)
                      (\<lambda>q. q\<lparr> q_text := s_text (c_server conf),
                              q_category := s_category (c_server conf),
                              q_lastModified := s_lastModified (c_server conf),
                              q_pendingSync := False \<rparr>) (quotes st),
          pendingConflicts := filter (\<lambda>pc. c_id pc \<noteq> c_id conf) (pendingConflicts st) \<rparr>)"

definition keepLocal ::
  "env \<Rightarrow> (quote \<Rightarrow> 'w \<Rightarrow> bool \<times> 'w) \<Rightarrow> conflict \<Rightarrow> 'w app_state
     \<Rightarrow> notification option \<times> 'w app_state" where
  \<comment> \<open>\<^verbatim>\<open>keepLocalBtn.onclick\<close>\<close>
  "keepLocal e post conf st =
     (case find (\<lambda>q. q_id q = c_id conf) (quotes st) of
        None \<Rightarrow> (None, st)
      | Some localQ0 \<Rightarrow>
          (let localQ = localQ0\<lparr> q_lastModified := nowISO e (ticks st) \<rparr>;
               st1 = st\<lparr> quotes := update_first (\<lambda>q. q_id q = c_id conf) (\<lambda>q. localQ) (quotes st),
                         ticks := Suc (ticks st) \<rparr>;
               r = post localQ (world st1)
           in if fst r then
                (Some LocalChangePushed,
                 st1\<lparr> quotes := update_first (\<lambda>q. q_id q = c_id conf)
                                  (\<lambda>q. q\<lparr> q_pendingSync := False \<rparr>) (quotes st1),
                      pendingConflicts :=
                        filter (\<lambda>pc. c_id pc \<noteq> c_id conf) (pendingConflicts st1),
                      world := snd r \<rparr>)
              else (Some LocalPushFailed, st1\<lparr> world := snd r \<rparr>)))"

definition resolveAllServer :: "'w app_state \<Rightarrow> notification \<times> 'w app_state" where
  \<comment> \<open>\<^verbatim>\<open>resolveAllServerBtn.onclick\<close>\<close>
  "resolveAllServer st = (AllServerAccepted, st\<lparr> pendingConflicts := [] \<rparr>)"

fun pushAllLocal ::
  "env \<Rightarrow> (quote \<Rightarrow> 'w \<Rightarrow> bool \<times> 'w) \<Rightarrow> conflict list \<Rightarrow> 'w app_state \<Rightarrow> 'w app_state" where
  \<comment> \<open>\<^verbatim>\<open>for (const c of pendingConflicts)\<close> of \<^verbatim>\<open>resolveAllLocalBtn.onclick\<close>\<close>
  "pushAllLocal e post [] st = st"
| "pushAllLocal e post (c # cs) st =
     (case find (\<lambda>q. q_id q = c_id c) (quotes st) of
        None \<Rightarrow> pushAllLocal e post cs st
      | Some localQ0 \<Rightarrow>
          (let localQ = localQ0\<lparr> q_lastModified := nowISO e (ticks st) \<rparr>;
               r = post localQ (world st)
           in pushAllLocal e post cs
                (st\<lparr> quotes := update_first (\<lambda>q. q_id q = c_id c) (\<lambda>q. localQ) (quotes st),
                     ticks := Suc (ticks st), world := snd r \<rparr>)))"

definition resolveAllLocal ::
  "env \<Rightarrow> (quote \<Rightarrow> 'w \<Rightarrow> bool \<times> 'w) \<Rightarrow> 'w app_state \<Rightarrow> notification \<times> 'w app_state" where
  "resolveAllLocal e post st =
     (AllLocalPushed, (pushAllLocal e post (pendingConflicts st) st)\<lparr> pendingConflicts := [] \<rparr>)"

section \<open>Import\<close>

text \<open>
  The \<^verbatim>\<open>onload\<close> handler of the import control. \<^verbatim>\<open>JSON.parse\<close> is passed in (\<open>None\<close>
  is its \<^verbatim>\<open>SyntaxError\<close>). A field of an imported object that is truthy and no string is
  kept by the script as it is; the store of this model holds strings, and \<open>str\<close> gives the
  string such a value is recorded as (for an id, \<^verbatim>\<open>String\<close> of it, with its type beside
  it). Of a JSON number only its being zero is read, so numbers are integers here.
\<close>

datatype json =
    JNull
  | JBool bool
  | JNum int
  | JStr string
  | JArr "json list"
  | JObj "(string \<times> json) list"

datatype import_message = ImportSuccess nat | InvalidJSONFormat | ErrorReadingJSON

fun truthy :: "json \<Rightarrow> bool" where
  "truthy JNull = False"
| "truthy (JBool b) = b"
| "truthy (JNum n) = (n \<noteq> 0)"
| "truthy (JStr s) = (s \<noteq> [])"
| "truthy (JArr xs) = True"
| "truthy (JObj kvs) = True"

fun property :: "json \<Rightarrow> string \<Rightarrow> json option" where
  \<comment> \<open>\<^verbatim>\<open>q.name\<close> on a value that is not \<^verbatim>\<open>null\<close>; \<open>None\<close> is \<^verbatim>\<open>undefined\<close>. In an
      object parsed from JSON the last of several equal keys counts.\<close>
  "property (JObj kvs) name = map_of (rev kvs) name"
| "property v name = None"

definition field_or :: "(json \<Rightarrow> string) \<Rightarrow> json option \<Rightarrow> string \<Rightarrow> string" where
  \<comment> \<open>\<^verbatim>\<open>q.name || dflt\<close>\<close>
  "field_or str v dflt =
     (case v of None \<Rightarrow> dflt
      | Some x \<Rightarrow> if truthy x then (case x of JStr s \<Rightarrow> s | _ \<Rightarrow> str x) else dflt)"

definition is_truthy :: "json option \<Rightarrow> bool" where
  "is_truthy v = (case v of None \<Rightarrow> False | Some x \<Rightarrow> truthy x)"

definition id_type_of :: "json option \<Rightarrow> id_type" where
  \<comment> \<open>the type of \<^verbatim>\<open>q.id || uid()\<close>; \<^verbatim>\<open>uid()\<close> is a string\<close>
  "id_type_of v =
     (case v of None \<Rightarrow> IdString
      | Some x \<Rightarrow>
          if truthy x then (case x of JStr s \<Rightarrow> IdString | JNum n \<Rightarrow> IdNumber | _ \<Rightarrow> IdOther)
          else IdString)"

definition normalize_item :: "env \<Rightarrow> (json \<Rightarrow> string) \<Rightarrow> json \<Rightarrow> nat \<Rightarrow> quote option \<times> nat" where
  \<comment> \<open>the arrow function of \<^verbatim>\<open>importedQuotes.map\<close>: reading a property of \<^verbatim>\<open>null\<close>
      throws (\<open>None\<close>); \<^verbatim>\<open>uid()\<close> and \<^verbatim>\<open>nowISO()\<close> each read the clock, and only where
      the field is falsy\<close>
  "normalize_item e str q k =
     (if q = JNull then (None, k)
      else
        (let vid = property q ''id'';
             k1 = (if is_truthy vid then k else Suc k);
             vlm = property q ''lastModified''
         in (Some \<lparr> q_id = field_or str vid (uid e k),
                    q_id_type = id_type_of vid,
                    q_text = field_or str (property q ''text'') [],
                    q_category = field_or str (property q ''category'') ''Uncategorized'',
                    q_lastModified = field_or str vlm (nowISO e k1),
                    q_pendingSync = False \<rparr>,
             if is_truthy vlm then k1 else Suc k1)))"

fun normalize_all :: "env \<Rightarrow> (json \<Rightarrow> string) \<Rightarrow> json list \<Rightarrow> nat \<Rightarrow> quote list option \<times> nat" where
  "normalize_all e str [] k = (Some [], k)"
| "normalize_all e str (q # qs) k =
     (case normalize_item e str q k of
        (None, k1) \<Rightarrow> (None, k1)
      | (Some n, k1) \<Rightarrow>
          (case normalize_all e str qs k1 of
             (None, k2) \<Rightarrow> (None, k2)
           | (Some ns, k2) \<Rightarrow> (Some (n # ns), k2)))"

definition import_onload ::
  "env \<Rightarrow> (json \<Rightarrow> string) \<Rightarrow> (string \<Rightarrow> json option) \<Rightarrow> string \<Rightarrow> 'w app_state
     \<Rightarrow> import_message \<times> 'w app_state" where
  "import_onload e str JSON_parse result st =
     (case JSON_parse result of
        None \<Rightarrow> (ErrorReadingJSON, st)
      | Some (JArr importedQuotes) \<Rightarrow>
          (case normalize_all e str importedQuotes (ticks st) of
             (None, k) \<Rightarrow> (ErrorReadingJSON, st\<lparr> ticks := k \<rparr>)
           | (Some normalized, k) \<Rightarrow>
               (ImportSuccess (length normalized), st\<lparr> quotes := normalized, ticks := k \<rparr>))
      | Some v \<Rightarrow> (InvalidJSONFormat, st))"

section \<open>Notions used to state the properties\<close>

text \<open>
  None of these is code of the script. \<open>keyed\<close> says that a Map holds every value under
  the key read from it; \<open>resolve\<close> is what the merge loop leaves under a key that both
  sides know; \<open>stored\<close> is the record a store holds for an id (the first one, as
  \<^verbatim>\<open>quotes.find\<close> reads it); \<open>post_trace\<close> lists the posts a sequence of records
  causes, each with its outcome; \<open>pushes\<close> is the list of the posts a pass makes, read
  from a run of the pass with a post that logs its calls.
\<close>

definition keyed :: "('v \<Rightarrow> 'k) \<Rightarrow> ('k \<times> 'v) list \<Rightarrow> bool" where
  "keyed f m = (distinct (map fst m) \<and> (\<forall>p \<in> set m. f (snd p) = fst p))"

definition resolve :: "env \<Rightarrow> string \<Rightarrow> server_quote \<Rightarrow> nat \<Rightarrow> quote \<Rightarrow> quote" where
  "resolve e i s k l =
     (if is_conflict e l s k
      then server_version e i s (tick_after (s_lastModified s) (tick_after (s_lastModified s) k))
      else l)"

definition start_state :: "quote list \<Rightarrow> nat \<Rightarrow> merge_state" where
  "start_state qs k = \<lparr> localMap = localMap_of qs, newLocal = [], conflicts = [], tick = k \<rparr>"

definition stored :: "string \<Rightarrow> quote list \<Rightarrow> quote option" where
  "stored i qs = find (\<lambda>q. q_id q = i) qs"

fun post_trace :: "(quote \<Rightarrow> 'w \<Rightarrow> bool \<times> 'w) \<Rightarrow> quote list \<Rightarrow> 'w \<Rightarrow> (quote \<times> bool) list" where
  "post_trace post [] w = []"
| "post_trace post (q # qs) w = (q, fst (post q w)) # post_trace post qs (snd (post q w))"

definition logged ::
  "(quote \<Rightarrow> 'w \<Rightarrow> bool \<times> 'w) \<Rightarrow> quote \<Rightarrow> 'w \<times> (quote \<times> bool) list
     \<Rightarrow> bool \<times> ('w \<times> (quote \<times> bool) list)" where
  \<comment> \<open>\<open>post\<close> with a log beside its world: every call appends the record it was given and
      the outcome it returned\<close>
  "logged post q wl =
     (fst (post q (fst wl)), (snd (post q (fst wl)), snd wl @ [(q, fst (post q (fst wl)))]))"

definition pushes ::
  "env \<Rightarrow> (quote \<Rightarrow> 'w \<Rightarrow> bool \<times> 'w) \<Rightarrow> server_quote list \<Rightarrow> 'w app_state \<Rightarrow> (quote \<times> bool) list" where
  \<comment> \<open>the log a pass leaves when its posts are logged, from an empty log\<close>
  "pushes e post serverQuotes st =
     snd (world (snd (syncWithServer_body e (logged post) serverQuotes
            \<lparr> quotes = quotes st, pendingConflicts = pendingConflicts st, ticks = ticks st,
              world = (world st, []) \<rparr>)))"

section \<open>Concrete inputs\<close>

text \<open>
  A clock that reads 0, 1, 2, ..., dates written as \<open>''100''\<close> and \<open>''200''\<close>, and
  adapters with a fixed answer.
\<close>

definition ex_env :: env where
  "ex_env = \<lparr> getTime = (\<lambda>s. if s = ''100'' then Some 100 else if s = ''200'' then Some 200
                               else None),
              toISO = (\<lambda>t. ''now''), clock = int, uid = (\<lambda>k. ''u'') \<rparr>"

definition fetch_list :: "server_quote list \<Rightarrow> quote list \<Rightarrow> 'w \<Rightarrow> server_quote list option \<times> 'w" where
  "fetch_list S qs w = (Some S, w)"


definition post_ok :: "quote \<Rightarrow> 'w \<Rightarrow> bool \<times> 'w" where
  "post_ok q w = (True, w)"

definition post_fails :: "quote \<Rightarrow> 'w \<Rightarrow> bool \<times> 'w" where
  "post_fails q w = (False, w)"

definition ex_state :: "quote list \<Rightarrow> unit app_state" where
  "ex_state qs = \<lparr> quotes = qs, pendingConflicts = [], ticks = 0, world = () \<rparr>"

definition local_a :: quote where
  "local_a = \<lparr> q_id = ''a'', q_id_type = IdString, q_text = ''X'', q_category = ''M'',
               q_lastModified = ''100'',
               q_pendingSync = False \<rparr>"

definition remote_a :: server_quote where
  "remote_a = \<lparr> s_id = ''a'', s_id_type = IdString, s_text = ''Y'', s_category = ''N'',
                s_lastModified = ''200'' \<rparr>"

definition parse_object :: "string \<Rightarrow> json option" where
  \<comment> \<open>a parser that reads every text as \<^verbatim>\<open>{"not": "an array"}\<close>\<close>
  "parse_object txt = Some (JObj [(''not'', JStr ''an array'')])"

definition str_plain :: "json \<Rightarrow> string" where
  "str_plain v = ''value''"

definition local_p :: quote where
  "local_p = \<lparr> q_id = ''1'', q_id_type = IdString, q_text = ''A'', q_category = ''M'',
               q_lastModified = ''100'',
               q_pendingSync = True \<rparr>"

definition local_1 :: quote where
  "local_1 = \<lparr> q_id = ''1'', q_id_type = IdString, q_text = ''A'', q_category = ''M'',
               q_lastModified = ''100'',
               q_pendingSync = False \<rparr>"

definition remote_1 :: server_quote where
  "remote_1 = \<lparr> s_id = ''1'', s_id_type = IdString, s_text = ''A'', s_category = ''M'',
                s_lastModified = ''200'' \<rparr>"

definition remote_b :: server_quote where
  "remote_b = \<lparr> s_id = ''b'', s_id_type = IdString, s_text = ''B'', s_category = ''N'',
                s_lastModified = ''200'' \<rparr>"

definition remote_c :: server_quote where
  "remote_c = \<lparr> s_id = ''c'', s_id_type = IdString, s_text = ''C'', s_category = ''N'',
                s_lastModified = ''100'' \<rparr>"

definition local_new :: quote where
  "local_new = \<lparr> q_id = ''n'', q_id_type = IdString, q_text = ''fresh'', q_category = ''M'',
               q_lastModified = ''100'',
                 q_pendingSync = True \<rparr>"

definition local_a_pending :: quote where
  "local_a_pending = local_a\<lparr> q_pendingSync := True \<rparr>"

definition remote_n :: server_quote where
  "remote_n = \<lparr> s_id = ''n'', s_id_type = IdString, s_text = ''other'', s_category = ''N'',
                s_lastModified = ''200'' \<rparr>"


definition stale_entry :: conflict where
  "stale_entry =
     \<lparr> c_id = ''1'',
       c_local = \<lparr> q_id = ''1'', q_id_type = IdString, q_text = ''old'', q_category = ''M'',
               q_lastModified = ''100'',
                   q_pendingSync = False \<rparr>,
       c_server = remote_1 \<rparr>"

definition stale_state :: "unit app_state" where
  "stale_state = \<lparr> quotes = [local_1], pendingConflicts = [stale_entry], ticks = 0, world = () \<rparr>"

section \<open>Facts about the model\<close>

subsection \<open>Map facts\<close>

lemma map_of_jsmap_set: "map_of (jsmap_set k v m) = (map_of m)(k \<mapsto> v)"
  by (induction m) (auto simp: fun_eq_iff)

lemma keys_jsmap_set:
  "map fst (jsmap_set k v m) = (if k \<in> fst ` set m then map fst m else map fst m @ [k])"
  by (induction m) auto

lemma keys_jsmap_set_present:
  "map_of m k = Some v' \<Longrightarrow> map fst (jsmap_set k v m) = map fst m"
  by (auto simp: keys_jsmap_set dest: map_of_SomeD weak_map_of_SomeI) (metis fst_conv image_eqI map_of_SomeD)

lemma distinct_jsmap_set:
  "distinct (map fst m) \<Longrightarrow> distinct (map fst (jsmap_set k v m))"
  by (simp add: keys_jsmap_set)

lemma set_jsmap_set: "set (jsmap_set k v m) \<subseteq> insert (k, v) (set m)"
  by (induction m) auto

lemma keyed_Nil: "keyed f []"
  by (simp add: keyed_def)

lemma keyed_jsmap_set: "keyed f m \<Longrightarrow> f v = k \<Longrightarrow> keyed f (jsmap_set k v m)"
  unfolding keyed_def using set_jsmap_set [of k v m] by (auto simp: distinct_jsmap_set)

lemma keyed_new_Map_from:
  "keyed f m \<Longrightarrow> \<forall>p \<in> set ps. f (snd p) = fst p \<Longrightarrow> keyed f (new_Map_from m ps)"
  by (induction ps arbitrary: m) (auto simp: keyed_jsmap_set)

lemma map_of_new_Map_from:
  "map_of (new_Map_from m ps) = map_of m ++ map_of (rev ps)"
proof (induction ps arbitrary: m)
  case Nil
  show ?case by simp
next
  case (Cons p ps)
  show ?case
    by (cases p) (simp add: Cons.IH map_of_jsmap_set map_add_def fun_eq_iff split: option.splits)
qed

lemma keyed_localMap_of: "keyed q_id (localMap_of qs)"
  unfolding localMap_of_def new_Map_def by (rule keyed_new_Map_from) (auto simp: keyed_Nil)

lemma keyed_serverMap_of: "keyed s_id (serverMap_of ss)"
  unfolding serverMap_of_def new_Map_def by (rule keyed_new_Map_from) (auto simp: keyed_Nil)

lemma keyed_values: "keyed f m \<Longrightarrow> map f (jsmap_values m) = map fst m"
  by (simp add: keyed_def jsmap_values_def)

lemma keyed_distinct_values: "keyed f m \<Longrightarrow> distinct (map f (jsmap_values m))"
  by (simp add: keyed_values) (simp add: keyed_def)

lemma new_Map_from_distinct:
  "distinct (map fst (m @ ps)) \<Longrightarrow> new_Map_from m ps = m @ ps"
proof (induction ps arbitrary: m)
  case Nil
  show ?case by simp
next
  case (Cons p ps)
  have "jsmap_set (fst p) (snd p) m = m @ [p]"
    using Cons.prems by (induction m) auto
  with Cons show ?case by simp
qed

lemma localMap_of_distinct:
  "distinct (map q_id qs) \<Longrightarrow> localMap_of qs = map (\<lambda>q. (q_id q, q)) qs"
  unfolding localMap_of_def new_Map_def
  by (rule new_Map_from_distinct [of "[]", simplified]) (simp add: comp_def)

lemma map_of_localMap_of_mem:
  "map_of (localMap_of qs) i = Some l \<Longrightarrow> l \<in> set qs \<and> q_id l = i"
  unfolding localMap_of_def new_Map_def
  by (auto simp: map_of_new_Map_from dest!: map_of_SomeD)

lemma dom_localMap_of: "fst ` set (localMap_of qs) = q_id ` set qs"
proof -
  have "dom (map_of (localMap_of qs)) = q_id ` set qs"
    unfolding localMap_of_def new_Map_def
    by (simp add: map_of_new_Map_from dom_map_of_conv_image_fst image_image rev_map [symmetric])
  then show ?thesis by (simp add: dom_map_of_conv_image_fst)
qed

subsection \<open>merge step\<close>

lemma merge_step_keys: "map fst (localMap (merge_step e p st)) = map fst (localMap st)"
  by (auto simp: merge_step_def Let_def jsmap_get_def keys_jsmap_set_present split: option.splits)

lemma merge_step_get:
  "map_of (localMap (merge_step e p st)) i =
     (if i = fst p then map_option (resolve e i (snd p) (tick st)) (map_of (localMap st) i)
      else map_of (localMap st) i)"
  by (auto simp: merge_step_def Let_def jsmap_get_def map_of_jsmap_set resolve_def
        SERVER_WINS_BY_DEFAULT_def split: option.splits)

lemma merge_step_keyed:
  "keyed q_id (localMap st) \<Longrightarrow> keyed q_id (localMap (merge_step e p st))"
  by (auto simp: merge_step_def Let_def jsmap_get_def keyed_jsmap_set server_version_def
        split: option.splits)

lemma merge_step_conflicts:
  "conflicts (merge_step e p st) = conflicts st @
     (case map_of (localMap st) (fst p) of None \<Rightarrow> []
      | Some l \<Rightarrow> if is_conflict e l (snd p) (tick st)
          then [conflict_entry e (fst p) l (snd p) (tick_after (s_lastModified (snd p)) (tick st))]
          else [])"
  by (auto simp: merge_step_def Let_def jsmap_get_def split: option.splits)

lemma merge_step_newLocal:
  "newLocal (merge_step e p st) = newLocal st @
     (case map_of (localMap st) (fst p) of
        None \<Rightarrow> [server_version e (s_id (snd p)) (snd p) (tick st)]
      | Some l \<Rightarrow> [])"
  by (auto simp: merge_step_def Let_def jsmap_get_def split: option.splits)

subsection \<open>merge loop\<close>

lemma merge_loop_keys: "map fst (localMap (merge_loop e es st)) = map fst (localMap st)"
  by (induction es arbitrary: st) (simp_all add: merge_step_keys)

lemma merge_loop_keyed:
  "keyed q_id (localMap st) \<Longrightarrow> keyed q_id (localMap (merge_loop e es st))"
  by (induction es arbitrary: st) (simp_all add: merge_step_keyed)

lemma merge_loop_get_other:
  "i \<notin> fst ` set es \<Longrightarrow> map_of (localMap (merge_loop e es st)) i = map_of (localMap st) i"
  by (induction es arbitrary: st) (auto simp: merge_step_get)

lemma merge_loop_get:
  "distinct (map fst es) \<Longrightarrow> (i, s) \<in> set es \<Longrightarrow>
   \<exists>k. map_of (localMap (merge_loop e es st)) i = map_option (resolve e i s k) (map_of (localMap st) i)"
proof (induction es arbitrary: st)
  case Nil
  then show ?case by simp
next
  case (Cons p ps)
  show ?case
  proof (cases "p = (i, s)")
    case True
    with Cons.prems have "i \<notin> fst ` set ps" by auto
    then show ?thesis
      using True by (auto simp: merge_loop_get_other merge_step_get)
  next
    case False
    with Cons.prems have mem: "(i, s) \<in> set ps" and ne: "fst p \<noteq> i"
      by (auto simp: image_iff)
    from Cons.IH [OF _ mem] Cons.prems(1)
    obtain k where "map_of (localMap (merge_loop e ps (merge_step e p st))) i
        = map_option (resolve e i s k) (map_of (localMap (merge_step e p st)) i)"
      by auto
    with ne show ?thesis by (auto simp: merge_step_get)
  qed
qed

lemma merge_loop_conflicts_mono:
  "set (conflicts st) \<subseteq> set (conflicts (merge_loop e es st))"
proof (induction es arbitrary: st)
  case Nil
  show ?case by simp
next
  case (Cons p ps)
  have "set (conflicts st) \<subseteq> set (conflicts (merge_step e p st))"
    by (simp add: merge_step_conflicts)
  with Cons.IH [of "merge_step e p st"] show ?case by auto
qed

lemma merge_loop_conflicts_new:
  "distinct (map fst es) \<Longrightarrow> c \<in> set (conflicts (merge_loop e es st)) \<Longrightarrow>
   c \<in> set (conflicts st) \<or>
   (\<exists>p \<in> set es. \<exists>l k k'. map_of (localMap st) (fst p) = Some l \<and> is_conflict e l (snd p) k
       \<and> c = conflict_entry e (fst p) l (snd p) k')"
proof (induction es arbitrary: st)
  case Nil
  then show ?case by simp
next
  case (Cons p ps)
  from Cons.prems have d: "distinct (map fst ps)" and np: "fst p \<notin> fst ` set ps" by auto
  from Cons.IH [OF d, of "merge_step e p st"] Cons.prems(2)
  consider "c \<in> set (conflicts (merge_step e p st))"
    | p' l k k' where "p' \<in> set ps" "map_of (localMap (merge_step e p st)) (fst p') = Some l"
        "is_conflict e l (snd p') k" "c = conflict_entry e (fst p') l (snd p') k'"
    by auto
  then show ?case
  proof cases
    case 1
    then have "c \<in> set (conflicts st) \<or>
        (\<exists>l. map_of (localMap st) (fst p) = Some l \<and> is_conflict e l (snd p) (tick st) \<and>
           c = conflict_entry e (fst p) l (snd p) (tick_after (s_lastModified (snd p)) (tick st)))"
      by (cases "map_of (localMap st) (fst p)")
         (auto simp: merge_step_conflicts split: if_splits)
    then show ?thesis by fastforce
  next
    case 2
    from 2(1) np have "fst p' \<noteq> fst p" by (metis imageI)
    with 2 have "map_of (localMap st) (fst p') = Some l" by (simp add: merge_step_get)
    with 2 show ?thesis
      by (intro disjI2 bexI [of _ p'] exI [of _ l] exI [of _ k] exI [of _ k'] conjI) simp_all
  qed
qed

lemma merge_loop_conflicts_have:
  "distinct (map fst es) \<Longrightarrow> (i, s) \<in> set es \<Longrightarrow> map_of (localMap st) i = Some l \<Longrightarrow>
   \<forall>k. is_conflict e l s k \<Longrightarrow>
   \<exists>k. conflict_entry e i l s k \<in> set (conflicts (merge_loop e es st))"
proof (induction es arbitrary: st)
  case Nil
  then show ?case by simp
next
  case (Cons p ps)
  show ?case
  proof (cases "p = (i, s)")
    case True
    have "conflict_entry e i l s (tick_after (s_lastModified s) (tick st))
            \<in> set (conflicts (merge_step e p st))"
      using True Cons.prems by (simp add: merge_step_conflicts)
    then show ?thesis
      using merge_loop_conflicts_mono [of "merge_step e p st" e ps] by auto
  next
    case False
    with Cons.prems have mem: "(i, s) \<in> set ps" and ne: "fst p \<noteq> i"
      by (auto simp: image_iff)
    have "map_of (localMap (merge_step e p st)) i = Some l"
      using ne Cons.prems by (simp add: merge_step_get)
    from Cons.IH [OF _ mem this Cons.prems(4)] Cons.prems(1) show ?thesis by auto
  qed
qed

lemma merge_loop_newLocal:
  "\<exists>ks. length ks = length [p \<leftarrow> es. map_of (localMap st) (fst p) = None] \<and>
        newLocal (merge_loop e es st) = newLocal st @
          map (\<lambda>pk. server_version e (s_id (snd (fst pk))) (snd (fst pk)) (snd pk))
            (zip [p \<leftarrow> es. map_of (localMap st) (fst p) = None] ks)"
proof (induction es arbitrary: st)
  case Nil
  show ?case by simp
next
  case (Cons p ps)
  have same: "(map_of (localMap (merge_step e p st)) i = None) = (map_of (localMap st) i = None)" for i
    by (simp add: merge_step_get)
  from Cons.IH [of "merge_step e p st"] obtain ks where
    ks: "length ks = length [p' \<leftarrow> ps. map_of (localMap st) (fst p') = None]"
    and nl: "newLocal (merge_loop e ps (merge_step e p st)) = newLocal (merge_step e p st) @
          map (\<lambda>pk. server_version e (s_id (snd (fst pk))) (snd (fst pk)) (snd pk))
            (zip [p' \<leftarrow> ps. map_of (localMap st) (fst p') = None] ks)"
    by (auto simp: same)
  show ?case
  proof (cases "map_of (localMap st) (fst p)")
    case None
    with ks nl show ?thesis
      by (intro exI [of _ "tick st # ks"]) (simp add: merge_step_newLocal)
  next
    case (Some l)
    with ks nl show ?thesis
      by (intro exI [of _ ks]) (simp add: merge_step_newLocal)
  qed
qed

subsection \<open>adding the new items\<close>

lemma map_of_add_newLocal:
  "map_of (add_newLocal items m) = map_of m ++ map_of (rev (map (\<lambda>q. (q_id q, q)) items))"
proof (induction items arbitrary: m)
  case Nil
  show ?case by simp
next
  case (Cons q items)
  show ?case
    by (simp add: Cons.IH map_of_jsmap_set map_add_def fun_eq_iff split: option.splits)
qed

lemma keyed_add_newLocal: "keyed q_id m \<Longrightarrow> keyed q_id (add_newLocal items m)"
  by (induction items arbitrary: m) (simp_all add: keyed_jsmap_set)

lemma map_of_add_newLocal_old:
  "i \<notin> q_id ` set items \<Longrightarrow> map_of (add_newLocal items m) i = map_of m i"
proof -
  assume "i \<notin> q_id ` set items"
  then have "map_of (rev (map (\<lambda>q. (q_id q, q)) items)) i = None"
    by (simp add: map_of_eq_None_iff image_image)
  then show ?thesis by (simp add: map_of_add_newLocal map_add_def)
qed

lemma map_of_add_newLocal_new:
  assumes "distinct (map q_id items)" and "q \<in> set items"
  shows "map_of (add_newLocal items m) (q_id q) = Some q"
proof -
  have "distinct (map fst (rev (map (\<lambda>q. (q_id q, q)) items)))"
    using assms(1) by (simp add: rev_map [symmetric] comp_def)
  moreover have "(q_id q, q) \<in> set (rev (map (\<lambda>q. (q_id q, q)) items))"
    using assms(2) by auto
  ultimately have "map_of (rev (map (\<lambda>q. (q_id q, q)) items)) (q_id q) = Some q"
    by (rule map_of_is_SomeI)
  then show ?thesis by (simp add: map_of_add_newLocal map_add_def)
qed

subsection \<open>the merge phase\<close>

lemma merge_phase_alt:
  "merge_phase e qs ss k =
     (merge_loop e (serverMap_of ss) (start_state qs k))
       \<lparr> localMap := add_newLocal (newLocal (merge_loop e (serverMap_of ss) (start_state qs k)))
                       (localMap (merge_loop e (serverMap_of ss) (start_state qs k))) \<rparr>"
  by (simp add: merge_phase_def start_state_def Let_def)

lemma keyed_merge_phase: "keyed q_id (localMap (merge_phase e qs ss k))"
  by (simp add: merge_phase_alt keyed_add_newLocal merge_loop_keyed start_state_def
        keyed_localMap_of)

lemma serverMap_fst: "p \<in> set (serverMap_of ss) \<Longrightarrow> s_id (snd p) = fst p"
  using keyed_serverMap_of [of ss] by (simp add: keyed_def)

lemma serverMap_distinct: "distinct (map fst (serverMap_of ss))"
  using keyed_serverMap_of [of ss] by (simp add: keyed_def)

lemma newLocal_shape:
  "\<exists>ks. length ks = length [p \<leftarrow> serverMap_of ss. map_of (localMap_of qs) (fst p) = None] \<and>
        newLocal (merge_phase e qs ss k) =
          map (\<lambda>pk. server_version e (fst (fst pk)) (snd (fst pk)) (snd pk))
            (zip [p \<leftarrow> serverMap_of ss. map_of (localMap_of qs) (fst p) = None] ks)"
proof -
  from merge_loop_newLocal [where es = "serverMap_of ss" and st = "start_state qs k" and e = e]
  obtain ks where
    len: "length ks = length [p \<leftarrow> serverMap_of ss. map_of (localMap_of qs) (fst p) = None]"
    and nl: "newLocal (merge_loop e (serverMap_of ss) (start_state qs k)) =
          map (\<lambda>pk. server_version e (s_id (snd (fst pk))) (snd (fst pk)) (snd pk))
            (zip [p \<leftarrow> serverMap_of ss. map_of (localMap_of qs) (fst p) = None] ks)"
    by (auto simp: start_state_def)
  have "map (\<lambda>pk. server_version e (s_id (snd (fst pk))) (snd (fst pk)) (snd pk))
            (zip [p \<leftarrow> serverMap_of ss. map_of (localMap_of qs) (fst p) = None] ks)
      = map (\<lambda>pk. server_version e (fst (fst pk)) (snd (fst pk)) (snd pk))
            (zip [p \<leftarrow> serverMap_of ss. map_of (localMap_of qs) (fst p) = None] ks)"
  proof (rule map_cong [OF refl])
    fix pk
    assume "pk \<in> set (zip [p \<leftarrow> serverMap_of ss. map_of (localMap_of qs) (fst p) = None] ks)"
    then have "fst pk \<in> set [p \<leftarrow> serverMap_of ss. map_of (localMap_of qs) (fst p) = None]"
      by (metis in_set_zipE prod.collapse)
    then have "fst pk \<in> set (serverMap_of ss)" by simp
    then show "server_version e (s_id (snd (fst pk))) (snd (fst pk)) (snd pk)
        = server_version e (fst (fst pk)) (snd (fst pk)) (snd pk)"
      by (simp add: serverMap_fst)
  qed
  with len nl show ?thesis
    by (intro exI [of _ ks]) (simp add: merge_phase_alt)
qed

lemma newLocal_ids:
  "map q_id (newLocal (merge_phase e qs ss k)) =
     map fst [p \<leftarrow> serverMap_of ss. map_of (localMap_of qs) (fst p) = None]"
proof -
  from newLocal_shape [where ss = ss and qs = qs and e = e and k = k] obtain ks where
    len: "length ks = length [p \<leftarrow> serverMap_of ss. map_of (localMap_of qs) (fst p) = None]"
    and nl: "newLocal (merge_phase e qs ss k) =
          map (\<lambda>pk. server_version e (fst (fst pk)) (snd (fst pk)) (snd pk))
            (zip [p \<leftarrow> serverMap_of ss. map_of (localMap_of qs) (fst p) = None] ks)"
    by blast
  have "map q_id (newLocal (merge_phase e qs ss k))
      = map (fst \<circ> fst) (zip [p \<leftarrow> serverMap_of ss. map_of (localMap_of qs) (fst p) = None] ks)"
    by (simp add: nl server_version_def comp_def)
  also have "\<dots> = map fst (map fst
      (zip [p \<leftarrow> serverMap_of ss. map_of (localMap_of qs) (fst p) = None] ks))"
    by simp
  also have "\<dots> = map fst [p \<leftarrow> serverMap_of ss. map_of (localMap_of qs) (fst p) = None]"
    using len by (simp only: map_fst_zip)
  finally show ?thesis .
qed

lemma newLocal_length:
  "length (newLocal (merge_phase e qs ss k)) =
     length [p \<leftarrow> serverMap_of ss. map_of (localMap_of qs) (fst p) = None]"
  using arg_cong [OF newLocal_ids [of e qs ss k], of length] by simp

lemma newLocal_distinct: "distinct (map q_id (newLocal (merge_phase e qs ss k)))"
  by (simp add: newLocal_ids distinct_map_filter serverMap_distinct)

lemma newLocal_not_local:
  "q \<in> set (newLocal (merge_phase e qs ss k)) \<Longrightarrow> map_of (localMap_of qs) (q_id q) = None"
proof -
  assume "q \<in> set (newLocal (merge_phase e qs ss k))"
  then have "q_id q \<in> set (map q_id (newLocal (merge_phase e qs ss k)))" by simp
  then show ?thesis unfolding newLocal_ids by auto
qed

lemma newLocal_has:
  assumes "map_of (serverMap_of ss) i = Some s" and "map_of (localMap_of qs) i = None"
  shows "\<exists>k'. server_version e i s k' \<in> set (newLocal (merge_phase e qs ss k))"
proof -
  let ?es = "[p \<leftarrow> serverMap_of ss. map_of (localMap_of qs) (fst p) = None]"
  from newLocal_shape [where ss = ss and qs = qs and e = e and k = k] obtain ks where
    len: "length ks = length ?es"
    and nl: "newLocal (merge_phase e qs ss k) =
          map (\<lambda>pk. server_version e (fst (fst pk)) (snd (fst pk)) (snd pk)) (zip ?es ks)"
    by blast
  from assms have "(i, s) \<in> set ?es" by (auto dest: map_of_SomeD)
  then obtain n where n: "n < length ?es" "?es ! n = (i, s)"
    unfolding in_set_conv_nth by blast
  with len have "zip ?es ks ! n = ((i, s), ks ! n)" and "n < length (zip ?es ks)"
    by simp_all
  then have "((i, s), ks ! n) \<in> set (zip ?es ks)"
    by (metis nth_mem)
  then have "server_version e i s (ks ! n) \<in> set (newLocal (merge_phase e qs ss k))"
    unfolding nl by force
  then show ?thesis ..
qed

lemma merged_local_only:
  assumes "map_of (serverMap_of ss) i = None"
  shows "map_of (localMap (merge_phase e qs ss k)) i = map_of (localMap_of qs) i"
proof -
  have "i \<notin> q_id ` set (newLocal (merge_phase e qs ss k))"
  proof
    assume "i \<in> q_id ` set (newLocal (merge_phase e qs ss k))"
    then have "i \<in> set (map q_id (newLocal (merge_phase e qs ss k)))" by simp
    then have "i \<in> fst ` set (serverMap_of ss)" unfolding newLocal_ids by auto
    with assms show False by (simp add: map_of_eq_None_iff)
  qed
  moreover have "i \<notin> fst ` set (serverMap_of ss)"
    using assms by (simp add: map_of_eq_None_iff)
  ultimately show ?thesis
    using map_of_add_newLocal_old [of i "newLocal (merge_phase e qs ss k)"]
    by (simp add: merge_phase_alt merge_loop_get_other start_state_def)
qed

lemma merged_both:
  assumes "map_of (serverMap_of ss) i = Some s" and "map_of (localMap_of qs) i = Some l"
  shows "\<exists>k'. map_of (localMap (merge_phase e qs ss k)) i = Some (resolve e i s k' l)"
proof -
  have "i \<notin> q_id ` set (newLocal (merge_phase e qs ss k))"
    using newLocal_not_local [of _ e qs ss k] assms(2) by auto
  then have "map_of (localMap (merge_phase e qs ss k)) i
      = map_of (localMap (merge_loop e (serverMap_of ss) (start_state qs k))) i"
    using map_of_add_newLocal_old [of i "newLocal (merge_phase e qs ss k)"]
    by (simp add: merge_phase_alt)
  moreover from merge_loop_get [OF serverMap_distinct map_of_SomeD [OF assms(1)],
      of e "start_state qs k"]
  obtain k' where "map_of (localMap (merge_loop e (serverMap_of ss) (start_state qs k))) i
      = map_option (resolve e i s k') (map_of (localMap (start_state qs k)) i)" ..
  ultimately show ?thesis using assms(2) by (auto simp: start_state_def)
qed

lemma merged_server_only:
  assumes "map_of (serverMap_of ss) i = Some s" and "map_of (localMap_of qs) i = None"
  shows "\<exists>k'. map_of (localMap (merge_phase e qs ss k)) i = Some (server_version e i s k')"
proof -
  from newLocal_has [OF assms, of e k] obtain k' where
    "server_version e i s k' \<in> set (newLocal (merge_phase e qs ss k))" ..
  from map_of_add_newLocal_new [OF newLocal_distinct this]
  have "map_of (localMap (merge_phase e qs ss k)) i = Some (server_version e i s k')"
    by (simp add: merge_phase_alt server_version_def)
  then show ?thesis ..
qed

subsection \<open>the pushes\<close>

lemma length_post_trace: "length (post_trace post qs w) = length qs"
  by (induction qs arbitrary: w) simp_all

lemma map_fst_post_trace: "map fst (post_trace post qs w) = qs"
  by (induction qs arbitrary: w) simp_all

lemma length_post_loop: "length (fst (post_loop post js mw)) = length (fst mw)"
  by (induction js arbitrary: mw) (simp_all add: Let_def)

lemma post_loop_outside: "j \<notin> set js \<Longrightarrow> fst (post_loop post js mw) ! j = fst mw ! j"
  by (induction js arbitrary: mw) (auto simp: Let_def)

lemma post_loop_fields:
  "j < length (fst mw) \<Longrightarrow> \<exists>b. fst (post_loop post js mw) ! j = (fst mw ! j)\<lparr> q_pendingSync := b \<rparr>"
proof (induction js arbitrary: mw)
  case Nil
  have "fst mw ! j = (fst mw ! j)\<lparr> q_pendingSync := q_pendingSync (fst mw ! j) \<rparr>" by simp
  then show ?case by (metis post_loop.simps(1))
next
  case (Cons i js)
  let ?m' = "(fst mw)[i := (fst mw ! i)\<lparr> q_pendingSync := (if fst (post (fst mw ! i) (snd mw)) then False else True) \<rparr>]"
  let ?mw' = "(?m', snd (post (fst mw ! i) (snd mw)))"
  from Cons.prems have "j < length (fst ?mw')" by simp
  from Cons.IH [OF this] obtain b where
    b: "fst (post_loop post js ?mw') ! j = (fst ?mw' ! j)\<lparr> q_pendingSync := b \<rparr>" ..
  have "\<exists>b'. (fst ?mw' ! j)\<lparr> q_pendingSync := b \<rparr> = (fst mw ! j)\<lparr> q_pendingSync := b' \<rparr>"
    using Cons.prems by (cases "i = j") auto
  with b show ?case by (simp add: Let_def)
qed

lemma post_loop_trace:
  "distinct js \<Longrightarrow> \<forall>i \<in> set js. i < length m \<Longrightarrow> n < length js \<Longrightarrow>
   fst (post_loop post js (m, w)) ! (js ! n) =
     (m ! (js ! n))\<lparr> q_pendingSync := \<not> snd (post_trace post (map ((!) m) js) w ! n) \<rparr>"
proof (induction js arbitrary: m w n)
  case Nil
  then show ?case by simp
next
  case (Cons i js)
  let ?m' = "m[i := (m ! i)\<lparr> q_pendingSync := (if fst (post (m ! i) w) then False else True) \<rparr>]"
  let ?w' = "snd (post (m ! i) w)"
  from Cons.prems have inotin: "i \<notin> set js" and i: "i < length m" by auto
  have same: "map ((!) ?m') js = map ((!) m) js"
    using inotin by (intro map_cong refl) (metis nth_list_update_neq)
  show ?case
  proof (cases n)
    case 0
    have "fst (post_loop post js (?m', ?w')) ! i = ?m' ! i"
      using inotin post_loop_outside [of i js post "(?m', ?w')"] by simp
    with 0 i show ?thesis by (simp add: Let_def)
  next
    case (Suc n')
    with Cons.prems have n': "n' < length js" and d: "distinct js"
      and r: "\<forall>i \<in> set js. i < length ?m'" by auto
    from n' inotin have ne: "js ! n' \<noteq> i" by (metis nth_mem)
    from Cons.IH [OF d r n', of ?w'] ne Suc show ?thesis
      by (simp add: Let_def same)
  qed
qed

lemma distinct_pendingToPost: "distinct (pendingToPost sm m)"
  by (simp add: pendingToPost_def)

lemma set_pendingToPost: "set (pendingToPost sm m) = {i. i < length m \<and> needs_post sm (m ! i)}"
  by (auto simp: pendingToPost_def)

lemma map_nth_pendingToPost: "map ((!) m) (pendingToPost sm m) = filter (needs_post sm) m"
proof -
  have "filter (needs_post sm) (map ((!) m) [0..<length m])
      = map ((!) m) (filter (needs_post sm \<circ> (!) m) [0..<length m])"
    by (rule filter_map)
  then show ?thesis by (simp add: map_nth pendingToPost_def comp_def)
qed

subsection \<open>what the store holds for an id\<close>

lemma find_values:
  "\<forall>p \<in> set m. f (snd p) = fst p \<Longrightarrow> find (\<lambda>v. f v = i) (map snd m) = map_of m i"
  by (induction m) auto

lemma find_same_ids:
  assumes len: "length r = length m"
    and ids: "\<forall>j < length m. q_id (r ! j) = q_id (m ! j)"
  shows "find (\<lambda>q. q_id q = i) m = None \<Longrightarrow> find (\<lambda>q. q_id q = i) r = None"
    and "find (\<lambda>q. q_id q = i) m = Some q \<Longrightarrow>
      \<exists>j < length m. m ! j = q \<and> find (\<lambda>q. q_id q = i) r = Some (r ! j)"
proof -
  assume "find (\<lambda>q. q_id q = i) m = None"
  then show "find (\<lambda>q. q_id q = i) r = None"
    using len ids by (auto simp: find_None_iff in_set_conv_nth)
next
  assume "find (\<lambda>q. q_id q = i) m = Some q"
  then obtain j where j: "j < length m" "m ! j = q" "q_id q = i"
    "\<forall>j' < j. q_id (m ! j') \<noteq> i"
    by (auto simp: find_Some_iff)
  then have "find (\<lambda>q. q_id q = i) r = Some (r ! j)"
    using len ids by (auto simp: find_Some_iff intro!: exI [of _ j])
  with j show "\<exists>j < length m. m ! j = q \<and> find (\<lambda>q. q_id q = i) r = Some (r ! j)"
    by blast
qed

lemma sync_fetch_ok:
  "fetch (quotes st) (world st) = (Some S, w) \<Longrightarrow>
   syncWithServer e fetch post st = syncWithServer_body e post S (st\<lparr> world := w \<rparr>)"
  by (simp add: syncWithServer_def)

lemma body_quotes:
  "quotes (snd (syncWithServer_body e post S st)) =
     fst (post_loop post
            (pendingToPost (serverMap_of S) (merged_of e (quotes st) S (ticks st)))
            (merged_of e (quotes st) S (ticks st), world st))"
  by (simp add: syncWithServer_body_def Let_def merged_of_def)

lemma body_pendingConflicts:
  "pendingConflicts (snd (syncWithServer_body e post S st)) =
     (if conflicts (merge_phase e (quotes st) S (ticks st)) \<noteq> []
      then conflicts (merge_phase e (quotes st) S (ticks st)) else pendingConflicts st)"
  by (simp add: syncWithServer_body_def Let_def)

lemma body_notification:
  "fst (syncWithServer_body e post S st) =
     (if conflicts (merge_phase e (quotes st) S (ticks st)) \<noteq> []
      then Some (ConflictsDetected (length (conflicts (merge_phase e (quotes st) S (ticks st)))))
      else if newLocal (merge_phase e (quotes st) S (ticks st)) \<noteq> []
      then Some (NewQuotesSynced (length (newLocal (merge_phase e (quotes st) S (ticks st)))))
      else None)"
  by (simp add: syncWithServer_body_def Let_def)

lemma post_loop_map:
  assumes "\<And>q b. f (q\<lparr> q_pendingSync := b \<rparr>) = f q"
  shows "map f (fst (post_loop post js mw)) = map f (fst mw)"
proof (rule nth_equalityI)
  show "length (map f (fst (post_loop post js mw))) = length (map f (fst mw))"
    by (simp add: length_post_loop)
next
  fix j
  assume "j < length (map f (fst (post_loop post js mw)))"
  then have j: "j < length (fst mw)" by (simp add: length_post_loop)
  from post_loop_fields [OF j] obtain b where
    "fst (post_loop post js mw) ! j = (fst mw ! j)\<lparr> q_pendingSync := b \<rparr>" by blast
  with j show "map f (fst (post_loop post js mw)) ! j = map f (fst mw) ! j"
    by (simp add: length_post_loop assms)
qed

lemma merged_ids:
  "map q_id (merged_of e qs S k) = map fst (localMap (merge_phase e qs S k))"
  unfolding merged_of_def by (rule keyed_values) (rule keyed_merge_phase)

lemma distinct_merged: "distinct (map q_id (merged_of e qs S k))"
  unfolding merged_of_def by (rule keyed_distinct_values) (rule keyed_merge_phase)

lemma stored_merged:
  "stored i (merged_of e qs S k) = map_of (localMap (merge_phase e qs S k)) i"
  unfolding stored_def merged_of_def jsmap_values_def
  using keyed_merge_phase [of e qs S k] by (intro find_values) (simp add: keyed_def)

lemma body_ids:
  "map q_id (quotes (snd (syncWithServer_body e post S st))) =
     map q_id (merged_of e (quotes st) S (ticks st))"
  unfolding body_quotes by (simp add: post_loop_map)

lemma stored_none:
  assumes "map_of (localMap (merge_phase e (quotes st) S (ticks st))) i = None"
  shows "stored i (quotes (snd (syncWithServer_body e post S st))) = None"
proof -
  have "i \<notin> set (map q_id (merged_of e (quotes st) S (ticks st)))"
    using assms by (simp add: merged_ids map_of_eq_None_iff)
  then have "i \<notin> set (map q_id (quotes (snd (syncWithServer_body e post S st))))"
    by (simp add: body_ids)
  then show ?thesis by (auto simp: stored_def find_None_iff)
qed

lemma stored_some:
  assumes "map_of (localMap (merge_phase e (quotes st) S (ticks st))) i = Some q"
  shows "\<exists>b. stored i (quotes (snd (syncWithServer_body e post S st))) = Some (q\<lparr> q_pendingSync := b \<rparr>)"
    and "\<not> needs_post (serverMap_of S) q \<Longrightarrow>
      stored i (quotes (snd (syncWithServer_body e post S st))) = Some q"
proof -
  let ?m = "merged_of e (quotes st) S (ticks st)"
  let ?js = "pendingToPost (serverMap_of S) ?m"
  let ?r = "fst (post_loop post ?js (?m, world st))"
  have len: "length ?r = length ?m" by (simp add: length_post_loop)
  have ids: "\<forall>j < length ?m. q_id (?r ! j) = q_id (?m ! j)"
  proof (intro allI impI)
    fix j assume "j < length ?m"
    then have "map q_id ?r ! j = map q_id ?m ! j"
      using post_loop_map [of q_id post ?js "(?m, world st)"] by simp
    with \<open>j < length ?m\<close> len show "q_id (?r ! j) = q_id (?m ! j)" by simp
  qed
  have "find (\<lambda>q. q_id q = i) ?m = Some q"
    using assms stored_merged [of i e "quotes st" S "ticks st"] by (simp add: stored_def)
  from find_same_ids(2) [OF len ids this] obtain j where
    j: "j < length ?m" "?m ! j = q" "find (\<lambda>q. q_id q = i) ?r = Some (?r ! j)" by blast
  from post_loop_fields [of j "(?m, world st)" post ?js] j obtain b where
    "?r ! j = q\<lparr> q_pendingSync := b \<rparr>" by auto
  with j show "\<exists>b. stored i (quotes (snd (syncWithServer_body e post S st))) = Some (q\<lparr> q_pendingSync := b \<rparr>)"
    by (auto simp: stored_def body_quotes)
  assume "\<not> needs_post (serverMap_of S) q"
  with j have "j \<notin> set ?js" by (simp add: set_pendingToPost)
  then have "?r ! j = ?m ! j"
    using post_loop_outside [of j ?js post "(?m, world st)"] by simp
  with j show "stored i (quotes (snd (syncWithServer_body e post S st))) = Some q"
    by (simp add: stored_def body_quotes)
qed

subsection \<open>the pass as a whole\<close>

lemma is_conflict_truthy:
  "s_lastModified s \<noteq> [] \<Longrightarrow>
   is_conflict e l s k =
     (strict_neq (getTime e (q_lastModified l)) (getTime e (s_lastModified s)) \<and> q_text l \<noteq> s_text s)"
  by (simp add: is_conflict_def serverLM_def)

lemma server_version_truthy:
  "s_lastModified s \<noteq> [] \<Longrightarrow>
   server_version e i s k =
     \<lparr> q_id = i, q_id_type = IdString, q_text = s_text s,
       q_category = s_category s,
       q_lastModified = s_lastModified s, q_pendingSync = False \<rparr>"
  by (simp add: server_version_def lm_or_now_def)

lemma conflict_entry_truthy:
  "s_lastModified s \<noteq> [] \<Longrightarrow> s_id s = i \<Longrightarrow>
   conflict_entry e i l s k = \<lparr> c_id = i, c_local = l, c_server = s\<lparr> s_id_type := IdString \<rparr> \<rparr>"
  by (simp add: conflict_entry_def lm_or_now_def deepClone_def)

lemma serverMap_get_id: "map_of (serverMap_of S) i = Some s \<Longrightarrow> s_id s = i"
  using serverMap_fst [of "(i, s)" S] by (auto dest: map_of_SomeD)

lemma has_serverMap: "map_of (serverMap_of S) i = Some s \<Longrightarrow> jsmap_has (serverMap_of S) i"
  by (simp add: jsmap_has_def)

lemma detected_conflict:
  assumes "map_of (localMap_of qs) i = Some l" and "map_of (serverMap_of S) i = Some s"
    and "\<forall>k. is_conflict e l s k"
  shows "\<exists>k'. conflict_entry e i l s k' \<in> set (conflicts (merge_phase e qs S k))"
  using merge_loop_conflicts_have [OF serverMap_distinct map_of_SomeD [OF assms(2)],
      of "start_state qs k" l e] assms(1,3)
  by (simp add: merge_phase_alt start_state_def)

subsection \<open>the log of the posts\<close>

lemma logged_apply:
  "logged post q (w, lg) = (fst (post q w), (snd (post q w), lg @ [(q, fst (post q w))]))"
  by (simp add: logged_def)

lemma post_loop_logged:
  "distinct js \<Longrightarrow>
   post_loop (logged post) js (m, (w, lg)) =
     (fst (post_loop post js (m, w)),
      (snd (post_loop post js (m, w)), lg @ post_trace post (map ((!) m) js) w))"
proof (induction js arbitrary: m w lg)
  case Nil
  show ?case by simp
next
  case (Cons i js)
  let ?m' = "m[i := (m ! i)\<lparr> q_pendingSync := (if fst (post (m ! i) w) then False else True) \<rparr>]"
  from Cons.prems have inotin: "i \<notin> set js" and d: "distinct js" by auto
  have same: "map ((!) ?m') js = map ((!) m) js"
    using inotin by (intro map_cong refl) (metis nth_list_update_neq)
  show ?case
    by (simp add: Let_def logged_apply Cons.IH [OF d] same)
qed

lemma pushes_trace:
  "pushes e post S st =
     post_trace post (filter (needs_post (serverMap_of S)) (merged_of e (quotes st) S (ticks st)))
       (world st)"
  by (simp add: pushes_def syncWithServer_body_def Let_def post_loop_logged
        distinct_pendingToPost map_nth_pendingToPost merged_of_def)

lemma pushes_records:
  "map fst (pushes e post S st) =
     filter (needs_post (serverMap_of S)) (merged_of e (quotes st) S (ticks st))"
  by (simp add: pushes_trace map_fst_post_trace)

lemma stored_pushed:
  assumes "map_of (localMap (merge_phase e (quotes st) S (ticks st))) i = Some q"
    and "needs_post (serverMap_of S) q"
  shows "\<exists>ok. (q, ok) \<in> set (pushes e post S st) \<and>
     stored i (quotes (snd (syncWithServer_body e post S st))) = Some (q\<lparr> q_pendingSync := \<not> ok \<rparr>)"
proof -
  let ?m = "merged_of e (quotes st) S (ticks st)"
  let ?js = "pendingToPost (serverMap_of S) ?m"
  let ?r = "fst (post_loop post ?js (?m, world st))"
  let ?tr = "post_trace post (map ((!) ?m) ?js) (world st)"
  have tr: "pushes e post S st = ?tr"
    by (simp add: pushes_trace map_nth_pendingToPost)
  have len: "length ?r = length ?m" by (simp add: length_post_loop)
  have ids: "\<forall>j < length ?m. q_id (?r ! j) = q_id (?m ! j)"
  proof (intro allI impI)
    fix j assume "j < length ?m"
    then have "map q_id ?r ! j = map q_id ?m ! j"
      using post_loop_map [of q_id post ?js "(?m, world st)"] by simp
    with \<open>j < length ?m\<close> len show "q_id (?r ! j) = q_id (?m ! j)" by simp
  qed
  have "find (\<lambda>q. q_id q = i) ?m = Some q"
    using assms(1) stored_merged [of i e "quotes st" S "ticks st"] by (simp add: stored_def)
  from find_same_ids(2) [OF len ids this] obtain j where
    j: "j < length ?m" "?m ! j = q" "find (\<lambda>q. q_id q = i) ?r = Some (?r ! j)" by blast
  with assms(2) have "j \<in> set ?js" by (simp add: set_pendingToPost)
  then obtain n where n: "n < length ?js" "?js ! n = j"
    unfolding in_set_conv_nth by blast
  have inr: "\<forall>i \<in> set ?js. i < length ?m" by (simp add: set_pendingToPost)
  from post_loop_trace [OF distinct_pendingToPost inr n(1), of post "world st"] n j
  have rj: "?r ! j = q\<lparr> q_pendingSync := \<not> snd (?tr ! n) \<rparr>" by simp
  have ntr: "n < length ?tr" using n by (simp add: length_post_trace)
  have "fst (?tr ! n) = map fst ?tr ! n" using ntr by simp
  also have "\<dots> = ?m ! j" using n by (simp add: map_fst_post_trace)
  finally have "?tr ! n = (q, snd (?tr ! n))" using j by (simp add: prod_eq_iff)
  with ntr have "(q, snd (?tr ! n)) \<in> set ?tr" by (metis nth_mem)
  with rj j tr show ?thesis
    by (intro exI [of _ "snd (?tr ! n)"]) (simp add: stored_def body_quotes)
qed

lemma no_conflict_cond:
  assumes "q_text l = s_text s \<or>
     (s_lastModified s \<noteq> [] \<and> getTime e (q_lastModified l) \<noteq> None \<and>
      getTime e (q_lastModified l) = getTime e (s_lastModified s))"
  shows "\<not> is_conflict e l s k"
proof (cases "q_text l = s_text s")
  case True
  then show ?thesis by (simp add: is_conflict_def)
next
  case False
  with assms have "s_lastModified s \<noteq> []" "getTime e (q_lastModified l) \<noteq> None"
    "getTime e (q_lastModified l) = getTime e (s_lastModified s)" by blast+
  then show ?thesis by (simp add: is_conflict_def serverLM_def strict_neq_def)
qed

lemma conflict_ids:
  assumes "c \<in> set (conflicts (merge_phase e qs S k))"
  shows "\<exists>l s k'. map_of (localMap_of qs) (c_id c) = Some l \<and>
     map_of (serverMap_of S) (c_id c) = Some s \<and> is_conflict e l s k'"
proof -
  from assms have "c \<in> set (conflicts (merge_loop e (serverMap_of S) (start_state qs k)))"
    by (simp add: merge_phase_alt)
  from merge_loop_conflicts_new [OF serverMap_distinct this]
  obtain p l k1 k2 where p: "p \<in> set (serverMap_of S)"
    "map_of (localMap_of qs) (fst p) = Some l" "is_conflict e l (snd p) k1"
    "c = conflict_entry e (fst p) l (snd p) k2"
    by (auto simp: start_state_def)
  from p(1) have "map_of (serverMap_of S) (fst p) = Some (snd p)"
    using serverMap_distinct [of S] by simp
  with p show ?thesis by (auto simp: conflict_entry_def)
qed

lemma dom_serverMap_of: "fst ` set (serverMap_of ss) = s_id ` set ss"
proof -
  have "dom (map_of (serverMap_of ss)) = s_id ` set ss"
    unfolding serverMap_of_def new_Map_def
    by (simp add: map_of_new_Map_from dom_map_of_conv_image_fst image_image rev_map [symmetric])
  then show ?thesis by (simp add: dom_map_of_conv_image_fst)
qed

lemma newLocal_card:
  "length (newLocal (merge_phase e qs S k)) = card (s_id ` set S - q_id ` set qs)"
proof -
  let ?es = "[p \<leftarrow> serverMap_of S. map_of (localMap_of qs) (fst p) = None]"
  have d: "distinct (map fst ?es)"
    by (simp add: distinct_map_filter serverMap_distinct)
  have "set (map fst ?es) = fst ` set (serverMap_of S) - fst ` set (localMap_of qs)"
    by (auto simp: map_of_eq_None_iff)
  then have "set (map fst ?es) = s_id ` set S - q_id ` set qs"
    by (simp add: dom_serverMap_of dom_localMap_of)
  with distinct_card [OF d] show ?thesis by (simp add: newLocal_length)
qed

lemma no_local_no_conflict: "conflicts (merge_phase e [] S k) = []"
proof (cases "conflicts (merge_phase e [] S k)")
  case Nil
  then show ?thesis .
next
  case (Cons c cs)
  then have "c \<in> set (conflicts (merge_phase e [] S k))" by simp
  from conflict_ids [OF this] have False
    by (simp add: localMap_of_def new_Map_def)
  then show ?thesis ..
qed

lemma merged_mem:
  "q \<in> set (merged_of e qs S k) \<longleftrightarrow> map_of (localMap (merge_phase e qs S k)) (q_id q) = Some q"
proof
  assume "q \<in> set (merged_of e qs S k)"
  then obtain p where p: "p \<in> set (localMap (merge_phase e qs S k))" "snd p = q"
    by (auto simp: merged_of_def jsmap_values_def)
  with keyed_merge_phase [of e qs S k] have "fst p = q_id q" by (auto simp: keyed_def)
  with p have "(q_id q, q) \<in> set (localMap (merge_phase e qs S k))"
    by (metis prod.collapse)
  with keyed_merge_phase [of e qs S k]
  show "map_of (localMap (merge_phase e qs S k)) (q_id q) = Some q"
    by (simp add: keyed_def)
next
  assume "map_of (localMap (merge_phase e qs S k)) (q_id q) = Some q"
  then have "(q_id q, q) \<in> set (localMap (merge_phase e qs S k))" by (rule map_of_SomeD)
  then show "q \<in> set (merged_of e qs S k)"
    by (auto simp: merged_of_def jsmap_values_def intro: rev_image_eqI)
qed

lemma filter_same_key:
  "distinct (map f xs) \<Longrightarrow> x \<in> set xs \<Longrightarrow> filter (\<lambda>y. f y = f x) xs = [x]"
proof (induction xs)
  case Nil
  then show ?case by simp
next
  case (Cons y ys)
  show ?case
  proof (cases "y = x")
    case True
    with Cons.prems have "\<forall>z \<in> set ys. f z \<noteq> f x" by (metis distinct.simps(2) imageI list.simps(9) set_map)
    then have "filter (\<lambda>y. f y = f x) ys = []" by (simp add: filter_empty_conv)
    with True show ?thesis by simp
  next
    case False
    with Cons.prems have "x \<in> set ys" "f y \<noteq> f x" by auto
    with Cons show ?thesis by simp
  qed
qed

lemma map_of_keyed_list: "map_of (map (\<lambda>q. (f q, q)) qs) i = find (\<lambda>q. f q = i) qs"
  by (induction qs) auto

lemma localMap_of_stored:
  "distinct (map q_id qs) \<Longrightarrow> map_of (localMap_of qs) i = stored i qs"
  by (simp add: localMap_of_distinct map_of_keyed_list stored_def)

lemma is_conflict_pending: "is_conflict e (q\<lparr> q_pendingSync := b \<rparr>) s k = is_conflict e q s k"
  by (simp add: is_conflict_def)

lemma pushes_distinct: "distinct (map fst (pushes e post S st))"
proof -
  have "distinct (merged_of e (quotes st) S (ticks st))"
    using distinct_merged [of e "quotes st" S "ticks st"] by (simp add: distinct_map)
  then show ?thesis by (simp add: pushes_records)
qed

lemma pushed_stored:
  assumes "(q, ok) \<in> set (pushes e post S st)"
  shows "stored (q_id q) (quotes (snd (syncWithServer_body e post S st)))
           = Some (q\<lparr> q_pendingSync := \<not> ok \<rparr>)"
proof -
  from assms have "q \<in> set (map fst (pushes e post S st))" by force
  then have q: "q \<in> set (merged_of e (quotes st) S (ticks st))"
    and n: "needs_post (serverMap_of S) q"
    by (simp_all add: pushes_records)
  from q have "map_of (localMap (merge_phase e (quotes st) S (ticks st))) (q_id q) = Some q"
    by (simp add: merged_mem)
  from stored_pushed [OF this n, of post] obtain ok' where
    ok': "(q, ok') \<in> set (pushes e post S st)"
    "stored (q_id q) (quotes (snd (syncWithServer_body e post S st)))
       = Some (q\<lparr> q_pendingSync := \<not> ok' \<rparr>)" by blast
  from eq_key_imp_eq_value [OF pushes_distinct ok'(1) assms] ok'(2) show ?thesis by simp
qed

lemma retried:
  assumes d: "distinct (map q_id (quotes st))"
    and held: "stored i (quotes st) = Some r"
    and pending: "q_pendingSync r"
    and calm: "\<forall>s k. jsmap_get (serverMap_of S) i = Some s \<longrightarrow> \<not> is_conflict e r s k"
  shows "map fst (filter (\<lambda>p. q_id (fst p) = i) (pushes e post S st)) = [r]"
    and "length (filter (\<lambda>x. q_id x = i) (quotes (snd (syncWithServer_body e post S st)))) = 1"
proof -
  let ?m = "merged_of e (quotes st) S (ticks st)"
  from held have i: "q_id r = i" by (auto simp: stored_def find_Some_iff)
  from d held have loc: "map_of (localMap_of (quotes st)) i = Some r"
    by (simp add: localMap_of_stored)
  have "map_of (localMap (merge_phase e (quotes st) S (ticks st))) i = Some r"
  proof (cases "map_of (serverMap_of S) i")
    case None
    then show ?thesis using loc by (simp add: merged_local_only)
  next
    case (Some s)
    with calm have "\<not> is_conflict e r s k" for k by (simp add: jsmap_get_def)
    with merged_both [OF Some loc, of e "ticks st"] show ?thesis
      by (auto simp: resolve_def)
  qed
  with i have mem: "r \<in> set ?m" by (simp add: merged_mem)
  have "map fst (filter (\<lambda>p. q_id (fst p) = i) (pushes e post S st))
      = filter (\<lambda>x. q_id x = i) (map fst (pushes e post S st))"
    by (simp add: filter_map comp_def)
  also have "\<dots> = filter (needs_post (serverMap_of S)) (filter (\<lambda>x. q_id x = q_id r) ?m)"
    by (simp add: pushes_records i conj_commute)
  also have "\<dots> = [r]"
    using filter_same_key [OF distinct_merged mem] pending by (simp add: needs_post_def)
  finally show "map fst (filter (\<lambda>p. q_id (fst p) = i) (pushes e post S st)) = [r]" .
  let ?r = "quotes (snd (syncWithServer_body e post S st))"
  have ids: "map q_id ?r = map q_id ?m" by (rule body_ids)
  have "length (filter (\<lambda>x. q_id x = i) ?r) = length (filter (\<lambda>y. y = i) (map q_id ?r))"
    by (simp add: filter_map comp_def)
  also have "\<dots> = length (filter (\<lambda>y. y = i) (map q_id ?m))" by (simp only: ids)
  also have "\<dots> = length (filter (\<lambda>x. q_id x = q_id r) ?m)"
    by (simp add: filter_map comp_def i)
  also have "\<dots> = 1" by (simp add: filter_same_key [OF distinct_merged mem])
  finally show "length (filter (\<lambda>x. q_id x = i) ?r) = 1" .
qed

subsection \<open>a second pass\<close>

lemma merge_step_noop:
  assumes "map_of (localMap st) (fst p) = Some l" and "\<not> is_conflict e l (snd p) (tick st)"
    and "s_lastModified (snd p) \<noteq> []"
  shows "merge_step e p st = st"
  using assms by (simp add: merge_step_def Let_def jsmap_get_def tick_after_def)

lemma merge_loop_noop:
  assumes "\<forall>p \<in> set es. s_lastModified (snd p) \<noteq> [] \<and>
     (\<exists>l. map_of (localMap st) (fst p) = Some l \<and> \<not> is_conflict e l (snd p) (tick st))"
  shows "merge_loop e es st = st"
  using assms
proof (induction es)
  case Nil
  show ?case by simp
next
  case (Cons p ps)
  from Cons.prems obtain l where "s_lastModified (snd p) \<noteq> []"
    "map_of (localMap st) (fst p) = Some l" "\<not> is_conflict e l (snd p) (tick st)"
    by auto
  then have "merge_step e p st = st" by (simp add: merge_step_noop)
  with Cons show ?case by simp
qed

lemma serverMap_mem: "p \<in> set (serverMap_of S) \<Longrightarrow> snd p \<in> set S"
proof -
  assume "p \<in> set (serverMap_of S)"
  then have "map_of (serverMap_of S) (fst p) = Some (snd p)"
    using serverMap_distinct [of S] by simp
  then show ?thesis
    unfolding serverMap_of_def new_Map_def
    by (auto simp: map_of_new_Map_from dest!: map_of_SomeD)
qed

lemma settled_after_pass:
  assumes truthy: "\<forall>s \<in> set S. s_lastModified s \<noteq> []"
    and p: "p \<in> set (serverMap_of S)"
  shows "\<exists>l. map_of (localMap (merge_phase e qs S k)) (fst p) = Some l \<and>
     \<not> is_conflict e l (snd p) k'"
proof -
  from p have srv: "map_of (serverMap_of S) (fst p) = Some (snd p)"
    using serverMap_distinct [of S] by simp
  from p truthy have lm: "s_lastModified (snd p) \<noteq> []" by (simp add: serverMap_mem)
  show ?thesis
  proof (cases "map_of (localMap_of qs) (fst p)")
    case None
    from merged_server_only [OF srv None, of e k] obtain k1 where
      "map_of (localMap (merge_phase e qs S k)) (fst p) = Some (server_version e (fst p) (snd p) k1)" ..
    then show ?thesis by (simp add: is_conflict_def server_version_def)
  next
    case (Some l)
    from merged_both [OF srv Some, of e k] obtain k1 where
      m: "map_of (localMap (merge_phase e qs S k)) (fst p) = Some (resolve e (fst p) (snd p) k1 l)" ..
    have "\<not> is_conflict e (resolve e (fst p) (snd p) k1 l) (snd p) k'"
      by (simp add: resolve_def is_conflict_truthy [OF lm] server_version_def)
    with m show ?thesis by simp
  qed
qed

lemma second_merge_noop:
  assumes truthy: "\<forall>s \<in> set S. s_lastModified s \<noteq> []"
    and d: "distinct (map q_id qs')"
    and same: "\<forall>i. map_option (\<lambda>q. (q_text q, q_lastModified q)) (stored i qs')
       = map_option (\<lambda>q. (q_text q, q_lastModified q)) (map_of (localMap (merge_phase e qs S k)) i)"
  shows "merge_phase e qs' S k' = start_state qs' k'"
proof -
  have "merge_loop e (serverMap_of S) (start_state qs' k') = start_state qs' k'"
  proof (rule merge_loop_noop, rule ballI)
    fix p assume p: "p \<in> set (serverMap_of S)"
    from settled_after_pass [OF truthy p, of e qs k k'] obtain l where
      l: "map_of (localMap (merge_phase e qs S k)) (fst p) = Some l"
      "\<not> is_conflict e l (snd p) k'" by blast
    from same [rule_format, of "fst p"] l(1) obtain l' where
      l': "stored (fst p) qs' = Some l'" "q_text l' = q_text l"
      "q_lastModified l' = q_lastModified l" by auto
    from l(2) l'(2,3) have "\<not> is_conflict e l' (snd p) k'" by (simp add: is_conflict_def)
    moreover from l'(1) d have "map_of (localMap_of qs') (fst p) = Some l'"
      by (simp add: localMap_of_stored)
    moreover from p truthy have "s_lastModified (snd p) \<noteq> []" by (simp add: serverMap_mem)
    ultimately show "s_lastModified (snd p) \<noteq> [] \<and>
      (\<exists>l. map_of (localMap (start_state qs' k')) (fst p) = Some l \<and>
         \<not> is_conflict e l (snd p) (tick (start_state qs' k')))"
      by (simp add: start_state_def)
  qed
  then show ?thesis by (simp add: merge_phase_alt) (simp add: start_state_def)
qed

lemma stored_body_fields:
  "map_option (\<lambda>q. (q_text q, q_lastModified q)) (stored i (quotes (snd (syncWithServer_body e post S st))))
     = map_option (\<lambda>q. (q_text q, q_lastModified q))
         (map_of (localMap (merge_phase e (quotes st) S (ticks st))) i)"
proof (cases "map_of (localMap (merge_phase e (quotes st) S (ticks st))) i")
  case None
  then show ?thesis by (simp add: stored_none)
next
  case (Some q)
  from stored_some(1) [OF Some, of post] show ?thesis using Some by auto
qed

subsection \<open>the server helpers and the registry\<close>

lemma postQuote_other_type:
  "s_id_type s \<noteq> q_id_type q \<Longrightarrow> postQuote q [s] = [s, server_item_of q]"
  by (simp add: strict_eq_id_def)

lemma postQuoteToServer_ok: "fst (postQuoteToServer q w)"
  by (simp add: postQuoteToServer_def split: list.splits bool.splits)



lemma body_registry:
  "pendingConflicts (snd (syncWithServer_body e post S st)) =
     (if conflicts (merge_phase e (quotes st) S (ticks st)) = [] then pendingConflicts st
      else conflicts (merge_phase e (quotes st) S (ticks st)))"
  by (simp add: body_pendingConflicts)

lemma conflicting_not_pushed:
  assumes loc: "map_of (localMap_of (quotes st)) i = Some l"
    and srv: "map_of (serverMap_of S) i = Some s"
    and confl: "\<forall>k. is_conflict e l s k"
    and p: "p \<in> set (pushes e post S st)"
  shows "q_id (fst p) \<noteq> i"
proof
  assume i: "q_id (fst p) = i"
  from p have "fst p \<in> set (map fst (pushes e post S st))" by simp
  then have m: "fst p \<in> set (merged_of e (quotes st) S (ticks st))"
    and n: "needs_post (serverMap_of S) (fst p)"
    by (simp_all add: pushes_records)
  from m i have "map_of (localMap (merge_phase e (quotes st) S (ticks st))) i = Some (fst p)"
    by (simp add: merged_mem)
  moreover from merged_both [OF srv loc, of e "ticks st"] confl obtain k' where
    "map_of (localMap (merge_phase e (quotes st) S (ticks st))) i
       = Some (server_version e i s k')"
    by (auto simp: resolve_def)
  ultimately have "fst p = server_version e i s k'" by simp
  with n i has_serverMap [OF srv] show False
    by (simp add: needs_post_def server_version_def)
qed

section \<open>The claims\<close>

text \<open>
  C9. An import whose top-level JSON value is not an array is rejected with the
  "Invalid JSON format" message, and the state, the record store in it, is exactly what
  it was.
\<close>

theorem import_non_array_rejected:
  assumes "JSON_parse result = Some v" and "\<forall>xs. v \<noteq> JArr xs"
  shows "import_onload e str JSON_parse result st = (InvalidJSONFormat, st)"
  using assms by (cases v) (simp_all add: import_onload_def)

theorem import_non_array_rejected_witness:
  "parse_object ''{}'' = Some (JObj [(''not'', JStr ''an array'')]) \<and>
   import_onload ex_env str_plain parse_object ''{}'' (ex_state [local_a])
     = (InvalidJSONFormat, ex_state [local_a])"
proof -
  have p: "parse_object ''{}'' = Some (JObj [(''not'', JStr ''an array'')])"
    by (simp add: parse_object_def)
  have "\<forall>xs. JObj [(''not'', JStr ''an array'')] \<noteq> JArr xs" by simp
  from import_non_array_rejected [where JSON_parse = parse_object, OF p this] p show ?thesis by simp
qed

text \<open>
  C4. Whatever the local store and the snapshot the fetch returns, also when either
  repeats an id, the store the pass commits holds no two records with the same id.
\<close>

theorem store_ids_distinct:
  assumes "fetch (quotes st) (world st) = (Some S, w)"
  shows "distinct (map q_id (quotes (snd (syncWithServer e fetch post st))))"
  unfolding sync_fetch_ok [where fetch = fetch, OF assms]
  by (simp add: body_ids distinct_merged)

theorem store_ids_distinct_witness:
  "map q_id (quotes (ex_state [local_a, local_a, local_1])) = [''a'', ''a'', ''1''] \<and>
   map q_id (quotes (snd (syncWithServer ex_env (fetch_list [remote_a, remote_b, remote_a]) post_ok
     (ex_state [local_a, local_a, local_1])))) = [''a'', ''1'', ''b''] \<and>
   distinct (map q_id (quotes (snd
     (syncWithServer ex_env (fetch_list [remote_a, remote_b, remote_a]) post_ok
        (ex_state [local_a, local_a, local_1])))))"
proof -
  have f: "fetch_list [remote_a, remote_b, remote_a] (quotes (ex_state [local_a, local_a, local_1]))
      (world (ex_state [local_a, local_a, local_1])) = (Some [remote_a, remote_b, remote_a], ())"
    by (simp add: fetch_list_def)
  have a: "map q_id (quotes (ex_state [local_a, local_a, local_1])) = [''a'', ''a'', ''1'']"
    by code_simp
  have b: "map q_id (quotes (snd (syncWithServer ex_env
      (fetch_list [remote_a, remote_b, remote_a]) post_ok
      (ex_state [local_a, local_a, local_1])))) = [''a'', ''1'', ''b'']"
    by code_simp
  from store_ids_distinct [where fetch = "fetch_list [remote_a, remote_b, remote_a]", OF f,
      of ex_env post_ok] a b
  show ?thesis by simp
qed

text \<open>
  C1. An id that both snapshots know, the server's record carrying a lastModified, with
  timestamps that differ and texts that differ:
  the pass puts a conflict entry for the id in the registry, holding the local and the
  server record whole (the server's with its id as the string the Map has it under), and
  the store ends the pass with the server's text, category and lastModified under that id
  and \<open>pendingSync\<close> false.
\<close>

theorem conflict_recorded_server_wins:
  assumes fetched: "fetch (quotes st) (world st) = (Some S, w)"
    and loc: "jsmap_get (localMap_of (quotes st)) i = Some l"
    and srv: "jsmap_get (serverMap_of S) i = Some s"
    and lm: "s_lastModified s \<noteq> []"
    and times: "strict_neq (getTime e (q_lastModified l)) (getTime e (s_lastModified s))"
    and texts: "q_text l \<noteq> s_text s"
  shows "\<lparr> c_id = i, c_local = l, c_server = s\<lparr> s_id_type := IdString \<rparr> \<rparr>
           \<in> set (pendingConflicts (snd (syncWithServer e fetch post st))) \<and>
         stored i (quotes (snd (syncWithServer e fetch post st))) =
           Some \<lparr> q_id = i, q_id_type = IdString, q_text = s_text s,
                  q_category = s_category s, q_lastModified = s_lastModified s,
                  q_pendingSync = False \<rparr>"
proof -
  let ?st = "st\<lparr> world := w \<rparr>"
  let ?ms = "merge_phase e (quotes ?st) S (ticks ?st)"
  let ?sv = "\<lparr> q_id = i, q_id_type = IdString, q_text = s_text s,
                q_category = s_category s, q_lastModified = s_lastModified s,
                q_pendingSync = False \<rparr>"
  from loc srv have loc': "map_of (localMap_of (quotes ?st)) i = Some l"
    and srv': "map_of (serverMap_of S) i = Some s" by (simp_all add: jsmap_get_def)
  have confl: "is_conflict e l s k" for k
    using lm times texts by (simp add: is_conflict_truthy)
  from detected_conflict [OF loc' srv', of e "ticks ?st"] confl
  have entry: "\<lparr> c_id = i, c_local = l, c_server = s\<lparr> s_id_type := IdString \<rparr> \<rparr> \<in> set (conflicts ?ms)"
    by (auto simp: conflict_entry_truthy [OF lm serverMap_get_id [OF srv']])
  then have "conflicts ?ms \<noteq> []" by auto
  with entry have 1: "\<lparr> c_id = i, c_local = l, c_server = s\<lparr> s_id_type := IdString \<rparr> \<rparr>
      \<in> set (pendingConflicts (snd (syncWithServer_body e post S ?st)))"
    by (simp add: body_pendingConflicts)
  from merged_both [OF srv' loc', of e "ticks ?st"]
  have "map_of (localMap ?ms) i = Some ?sv"
    by (auto simp: resolve_def confl server_version_truthy [OF lm])
  moreover have "\<not> needs_post (serverMap_of S) ?sv"
    using has_serverMap [OF srv'] by (simp add: needs_post_def)
  ultimately have 2: "stored i (quotes (snd (syncWithServer_body e post S ?st))) = Some ?sv"
    by (rule stored_some(2))
  from 1 2 show ?thesis by (simp add: sync_fetch_ok [where fetch = fetch, OF fetched])
qed

theorem conflict_recorded_server_wins_witness:
  "strict_neq (getTime ex_env (q_lastModified local_a)) (getTime ex_env (s_lastModified remote_a)) \<and>
   q_text local_a \<noteq> s_text remote_a \<and>
   \<lparr> c_id = ''a'', c_local = local_a, c_server = remote_a \<rparr>
     \<in> set (pendingConflicts (snd
          (syncWithServer ex_env (fetch_list [remote_a]) post_ok (ex_state [local_a])))) \<and>
   stored ''a'' (quotes (snd
          (syncWithServer ex_env (fetch_list [remote_a]) post_ok (ex_state [local_a]))))
     = Some \<lparr> q_id = ''a'', q_id_type = IdString, q_text = ''Y'', q_category = ''N'',
              q_lastModified = ''200'',
              q_pendingSync = False \<rparr>"
proof -
  have f: "fetch_list [remote_a] (quotes (ex_state [local_a])) (world (ex_state [local_a]))
      = (Some [remote_a], ())"
    by (simp add: fetch_list_def)
  have l: "jsmap_get (localMap_of (quotes (ex_state [local_a]))) ''a'' = Some local_a"
    by code_simp
  have s: "jsmap_get (serverMap_of [remote_a]) ''a'' = Some remote_a"
    by code_simp
  have lm: "s_lastModified remote_a \<noteq> []" by code_simp
  have t: "strict_neq (getTime ex_env (q_lastModified local_a))
      (getTime ex_env (s_lastModified remote_a))"
    by code_simp
  have x: "q_text local_a \<noteq> s_text remote_a" by code_simp
  from conflict_recorded_server_wins [where fetch = "fetch_list [remote_a]", OF f l s lm t x]
  show ?thesis using t x by (simp add: remote_a_def)
qed

text \<open>
  C3, as amended. An id that both snapshots know, with the same text on both sides or
  with two lastModified values that denote the same instant: the pass puts no conflict entry for the id in
  the registry, and the store keeps the local record's id, text, category and
  lastModified. A record whose \<open>pendingSync\<close> is false is kept as it is. A record whose
  \<open>pendingSync\<close> is true is posted, and its \<open>pendingSync\<close> ends the pass false when
  the post succeeded and true when it failed.
\<close>

theorem no_conflict_keeps_record:
  assumes fetched: "fetch (quotes st) (world st) = (Some S, w)"
    and loc: "jsmap_get (localMap_of (quotes st)) i = Some l"
    and srv: "jsmap_get (serverMap_of S) i = Some s"
    and same: "q_text l = s_text s \<or>
       (s_lastModified s \<noteq> [] \<and> getTime e (q_lastModified l) \<noteq> None \<and>
        getTime e (q_lastModified l) = getTime e (s_lastModified s))"
  shows "(\<forall>c \<in> set (pendingConflicts (snd (syncWithServer e fetch post st))).
            c_id c = i \<longrightarrow> c \<in> set (pendingConflicts st)) \<and>
         (\<not> q_pendingSync l \<longrightarrow>
            stored i (quotes (snd (syncWithServer e fetch post st))) = Some l) \<and>
         (q_pendingSync l \<longrightarrow>
            (\<exists>ok. (l, ok) \<in> set (pushes e post S (st\<lparr> world := w \<rparr>)) \<and>
               stored i (quotes (snd (syncWithServer e fetch post st)))
                 = Some (l\<lparr> q_pendingSync := \<not> ok \<rparr>)))"
proof -
  let ?st = "st\<lparr> world := w \<rparr>"
  let ?ms = "merge_phase e (quotes ?st) S (ticks ?st)"
  from loc srv have loc': "map_of (localMap_of (quotes ?st)) i = Some l"
    and srv': "map_of (serverMap_of S) i = Some s" by (simp_all add: jsmap_get_def)
  have nc: "\<not> is_conflict e l s k" for k by (rule no_conflict_cond [OF same])
  have sync: "syncWithServer e fetch post st = syncWithServer_body e post S ?st"
    by (rule sync_fetch_ok [where fetch = fetch, OF fetched])
  have none: "c_id c \<noteq> i" if "c \<in> set (conflicts ?ms)" for c
    using conflict_ids [OF that] loc' srv' nc by auto
  have 1: "\<forall>c \<in> set (pendingConflicts (snd (syncWithServer e fetch post st))).
            c_id c = i \<longrightarrow> c \<in> set (pendingConflicts st)"
    using none by (auto simp: sync body_pendingConflicts split: if_splits)
  from merged_both [OF srv' loc', of e "ticks ?st"]
  have m: "map_of (localMap ?ms) i = Some l" by (auto simp: resolve_def nc)
  have 2: "stored i (quotes (snd (syncWithServer e fetch post st))) = Some l"
    if "\<not> q_pendingSync l"
    unfolding sync using m
    by (rule stored_some(2))
       (use that has_serverMap [OF srv'] map_of_localMap_of_mem [OF loc'] in
         \<open>simp add: needs_post_def\<close>)
  have 3: "\<exists>ok. (l, ok) \<in> set (pushes e post S ?st) \<and>
               stored i (quotes (snd (syncWithServer e fetch post st)))
                 = Some (l\<lparr> q_pendingSync := \<not> ok \<rparr>)"
    if "q_pendingSync l"
    unfolding sync using m
    by (rule stored_pushed) (use that in \<open>simp add: needs_post_def\<close>)
  from 1 2 3 show ?thesis by blast
qed

text \<open>
  C3 as stated fails for a record that waits for its push: the local record
  \<open>local_p\<close> and the server record \<open>remote_1\<close> have the same text and different
  times, the post succeeds, and the store no longer holds \<open>local_p\<close> as it was (its
  \<open>pendingSync\<close> has become false).
\<close>

theorem unchanged_record_counterexample:
  "jsmap_get (localMap_of (quotes (ex_state [local_p]))) ''1'' = Some local_p \<and>
   jsmap_get (serverMap_of [remote_1]) ''1'' = Some remote_1 \<and>
   q_text local_p = s_text remote_1 \<and>
   stored ''1'' (quotes (snd (syncWithServer ex_env (fetch_list [remote_1]) post_ok
       (ex_state [local_p])))) \<noteq> Some local_p"
  by code_simp

theorem no_conflict_keeps_record_witness:
  "stored ''1'' (quotes (snd (syncWithServer ex_env (fetch_list [remote_1]) post_ok
       (ex_state [local_1])))) = Some local_1 \<and>
   (\<exists>ok. (local_p, ok) \<in> set (pushes ex_env post_fails [remote_1] (ex_state [local_p])) \<and>
      stored ''1'' (quotes (snd (syncWithServer ex_env (fetch_list [remote_1]) post_fails
        (ex_state [local_p])))) = Some (local_p\<lparr> q_pendingSync := \<not> ok \<rparr>))"
proof -
  have f: "fetch_list [remote_1] (quotes (ex_state qs)) (world (ex_state qs))
      = (Some [remote_1], ())" for qs
    by (simp add: fetch_list_def)
  have s: "jsmap_get (serverMap_of [remote_1]) ''1'' = Some remote_1" by code_simp
  have l1: "jsmap_get (localMap_of (quotes (ex_state [local_1]))) ''1'' = Some local_1"
    by code_simp
  have lp: "jsmap_get (localMap_of (quotes (ex_state [local_p]))) ''1'' = Some local_p"
    by code_simp
  have t1: "q_text local_1 = s_text remote_1 \<or>
       (s_lastModified remote_1 \<noteq> [] \<and> getTime ex_env (q_lastModified local_1) \<noteq> None \<and>
        getTime ex_env (q_lastModified local_1) = getTime ex_env (s_lastModified remote_1))"
    by code_simp
  have tp: "q_text local_p = s_text remote_1 \<or>
       (s_lastModified remote_1 \<noteq> [] \<and> getTime ex_env (q_lastModified local_p) \<noteq> None \<and>
        getTime ex_env (q_lastModified local_p) = getTime ex_env (s_lastModified remote_1))"
    by code_simp
  have n1: "\<not> q_pendingSync local_1" by code_simp
  have np: "q_pendingSync local_p" by code_simp
  have w: "(ex_state [local_p])\<lparr> world := () \<rparr> = ex_state [local_p]" by simp
  from no_conflict_keeps_record [where fetch = "fetch_list [remote_1]" and post = post_ok,
      OF f l1 s t1] n1
  have "stored ''1'' (quotes (snd (syncWithServer ex_env (fetch_list [remote_1]) post_ok
       (ex_state [local_1])))) = Some local_1" by blast
  moreover
  from no_conflict_keeps_record [where fetch = "fetch_list [remote_1]" and post = post_fails,
      OF f lp s tp] np
  have "\<exists>ok. (local_p, ok) \<in> set (pushes ex_env post_fails [remote_1] (ex_state [local_p])) \<and>
      stored ''1'' (quotes (snd (syncWithServer ex_env (fetch_list [remote_1]) post_fails
        (ex_state [local_p])))) = Some (local_p\<lparr> q_pendingSync := \<not> ok \<rparr>)"
    unfolding w by blast
  ultimately show ?thesis by blast
qed

text \<open>
  C7, as amended. A record of the server snapshot whose id the local store does not know:
  the store ends the pass with a record under that id carrying the server's text and
  category, the server's lastModified when it has one, and \<open>pendingSync\<close> false. The
  script returns no result; it reports the number of such additions in its notification
  when the pass detected no conflict (so for an empty local store the number of the
  server's ids), and when the pass detected conflicts it reports their number only.
\<close>

theorem server_only_added:
  assumes fetched: "fetch (quotes st) (world st) = (Some S, w)"
    and srv: "jsmap_get (serverMap_of S) i = Some s"
    and absent: "jsmap_get (localMap_of (quotes st)) i = None"
  shows "(\<exists>q. stored i (quotes (snd (syncWithServer e fetch post st))) = Some q \<and>
            q_id q = i \<and> q_text q = s_text s \<and> q_category q = s_category s \<and>
            \<not> q_pendingSync q \<and>
            (s_lastModified s \<noteq> [] \<longrightarrow> q_lastModified q = s_lastModified s)) \<and>
         (conflicts (merge_phase e (quotes st) S (ticks st)) = [] \<longrightarrow>
            fst (syncWithServer e fetch post st)
              = Some (NewQuotesSynced (card (s_id ` set S - q_id ` set (quotes st))))) \<and>
         (conflicts (merge_phase e (quotes st) S (ticks st)) \<noteq> [] \<longrightarrow>
            fst (syncWithServer e fetch post st)
              = Some (ConflictsDetected (length (conflicts (merge_phase e (quotes st) S (ticks st)))))) \<and>
         (quotes st = [] \<longrightarrow>
            fst (syncWithServer e fetch post st) = Some (NewQuotesSynced (card (s_id ` set S))))"
proof -
  let ?st = "st\<lparr> world := w \<rparr>"
  let ?ms = "merge_phase e (quotes st) S (ticks st)"
  from srv absent have srv': "map_of (serverMap_of S) i = Some s"
    and abs': "map_of (localMap_of (quotes ?st)) i = None" by (simp_all add: jsmap_get_def)
  have sync: "syncWithServer e fetch post st = syncWithServer_body e post S ?st"
    by (rule sync_fetch_ok [where fetch = fetch, OF fetched])
  from merged_server_only [OF srv' abs', of e "ticks ?st"] obtain k' where
    m: "map_of (localMap (merge_phase e (quotes ?st) S (ticks ?st))) i = Some (server_version e i s k')" ..
  have "\<not> needs_post (serverMap_of S) (server_version e i s k')"
    using has_serverMap [OF srv'] by (simp add: needs_post_def server_version_def)
  with m have "stored i (quotes (snd (syncWithServer e fetch post st))) = Some (server_version e i s k')"
    unfolding sync by (rule stored_some(2))
  then have 1: "\<exists>q. stored i (quotes (snd (syncWithServer e fetch post st))) = Some q \<and>
            q_id q = i \<and> q_text q = s_text s \<and> q_category q = s_category s \<and>
            \<not> q_pendingSync q \<and>
            (s_lastModified s \<noteq> [] \<longrightarrow> q_lastModified q = s_lastModified s)"
    by (simp add: server_version_def lm_or_now_def)
  from newLocal_has [OF srv' abs', of e "ticks ?st"] have ne: "newLocal ?ms \<noteq> []" by auto
  have n: "length (newLocal ?ms) = card (s_id ` set S - q_id ` set (quotes st))"
    by (rule newLocal_card)
  have 2: "fst (syncWithServer e fetch post st)
        = Some (NewQuotesSynced (card (s_id ` set S - q_id ` set (quotes st))))"
    if "conflicts ?ms = []"
    using that ne n by (simp add: sync body_notification)
  have 3: "fst (syncWithServer e fetch post st)
        = Some (ConflictsDetected (length (conflicts ?ms)))"
    if "conflicts ?ms \<noteq> []"
    using that by (simp add: sync body_notification)
  have 4: "fst (syncWithServer e fetch post st) = Some (NewQuotesSynced (card (s_id ` set S)))"
    if "quotes st = []"
    using 2 that no_local_no_conflict [of e S "ticks st"] by simp
  from 1 2 3 4 show ?thesis by blast
qed

text \<open>
  C7 as stated fails for the count when the pass also detects a conflict: \<open>remote_b\<close>
  is new to the store and \<open>remote_a\<close> conflicts with \<open>local_a\<close>; what the pass
  reports is one conflict, and no count of additions.
\<close>

theorem added_count_counterexample:
  "jsmap_get (serverMap_of [remote_a, remote_b]) ''b'' = Some remote_b \<and>
   jsmap_get (localMap_of (quotes (ex_state [local_a]))) ''b'' = None \<and>
   fst (syncWithServer ex_env (fetch_list [remote_a, remote_b]) post_ok (ex_state [local_a]))
     = Some (ConflictsDetected 1) \<and>
   fst (syncWithServer ex_env (fetch_list [remote_a, remote_b]) post_ok (ex_state [local_a]))
     \<noteq> Some (NewQuotesSynced 1)"
  by code_simp

theorem server_only_added_witness:
  "stored ''b'' (quotes (snd (syncWithServer ex_env (fetch_list [remote_b, remote_c]) post_ok
       (ex_state [])))) =
     Some \<lparr> q_id = ''b'', q_id_type = IdString, q_text = ''B'', q_category = ''N'',
            q_lastModified = ''200'', q_pendingSync = False \<rparr> \<and>
   fst (syncWithServer ex_env (fetch_list [remote_b, remote_c]) post_ok (ex_state []))
     = Some (NewQuotesSynced 2)"
proof -
  have f: "fetch_list [remote_b, remote_c] (quotes (ex_state [])) (world (ex_state []))
      = (Some [remote_b, remote_c], ())"
    by (simp add: fetch_list_def)
  have s: "jsmap_get (serverMap_of [remote_b, remote_c]) ''b'' = Some remote_b" by code_simp
  have l: "jsmap_get (localMap_of (quotes (ex_state []))) ''b'' = None" by code_simp
  have q: "quotes (ex_state []) = []" by code_simp
  have lm: "s_lastModified remote_b \<noteq> []" by code_simp
  have c: "card (s_id ` set [remote_b, remote_c]) = 2" by code_simp
  have r: "stored ''b'' (quotes (snd (syncWithServer ex_env (fetch_list [remote_b, remote_c])
      post_ok (ex_state [])))) =
     Some \<lparr> q_id = ''b'', q_id_type = IdString, q_text = ''B'', q_category = ''N'',
            q_lastModified = ''200'', q_pendingSync = False \<rparr>"
    by code_simp
  from server_only_added [where fetch = "fetch_list [remote_b, remote_c]" and post = post_ok
      and e = ex_env, OF f s l] q lm c
  have "fst (syncWithServer ex_env (fetch_list [remote_b, remote_c]) post_ok (ex_state []))
     = Some (NewQuotesSynced 2)"
    by simp
  with r show ?thesis by simp
qed

text \<open>
  C10, as amended. The records a pass posts, once the snapshot \<open>S\<close> is there, are the
  records of \<^verbatim>\<open>merged\<close>, the store after the merge, that have \<open>pendingSync\<close> true or an
  id the server snapshot lacks, in the order of the store: every record the server lacks
  is among them, \<^verbatim>\<open>localOnly\<close> included, and so is every record with \<open>pendingSync\<close>
  true whose id the server lists. A record of the local store that waits for its push and
  whose id the server lists is posted again when the pass finds no conflict for its id;
  when it conflicts with the server's record, the merge has replaced it by the server's
  version, and no record with its id is posted.
\<close>

theorem pending_records_pushed:
  "map fst (pushes e post S st)
     = filter (needs_post (serverMap_of S)) (merged_of e (quotes st) S (ticks st)) \<and>
   set (localOnly (serverMap_of S) (merged_of e (quotes st) S (ticks st)))
     \<subseteq> fst ` set (pushes e post S st) \<and>
   (\<forall>l \<in> set (merged_of e (quotes st) S (ticks st)).
      \<not> jsmap_has (serverMap_of S) (q_id l) \<longrightarrow> l \<in> fst ` set (pushes e post S st)) \<and>
   (\<forall>l \<in> set (merged_of e (quotes st) S (ticks st)).
      q_pendingSync l \<and> jsmap_has (serverMap_of S) (q_id l) \<longrightarrow>
      l \<in> fst ` set (pushes e post S st)) \<and>
   (\<forall>l s. jsmap_get (localMap_of (quotes st)) (q_id l) = Some l \<and> q_pendingSync l \<and>
      jsmap_get (serverMap_of S) (q_id l) = Some s \<and> (\<forall>k. \<not> is_conflict e l s k) \<longrightarrow>
      l \<in> fst ` set (pushes e post S st)) \<and>
   (\<forall>l s. jsmap_get (localMap_of (quotes st)) (q_id l) = Some l \<and>
      jsmap_get (serverMap_of S) (q_id l) = Some s \<and> (\<forall>k. is_conflict e l s k) \<longrightarrow>
      (\<forall>p \<in> set (pushes e post S st). q_id (fst p) \<noteq> q_id l))"
proof -
  let ?m = "merged_of e (quotes st) S (ticks st)"
  have rec: "map fst (pushes e post S st) = filter (needs_post (serverMap_of S)) ?m"
    by (rule pushes_records)
  then have img: "fst ` set (pushes e post S st) = {l \<in> set ?m. needs_post (serverMap_of S) l}"
    by (metis set_filter set_map)
  have 2: "set (localOnly (serverMap_of S) ?m) \<subseteq> fst ` set (pushes e post S st)"
    unfolding img by (auto simp: localOnly_def needs_post_def)
  have 3: "\<forall>l \<in> set ?m. \<not> jsmap_has (serverMap_of S) (q_id l) \<longrightarrow>
      l \<in> fst ` set (pushes e post S st)"
    unfolding img by (simp add: needs_post_def)
  have 4: "\<forall>l \<in> set ?m. q_pendingSync l \<and> jsmap_has (serverMap_of S) (q_id l) \<longrightarrow>
      l \<in> fst ` set (pushes e post S st)"
    unfolding img by (simp add: needs_post_def)
  have 5: "l \<in> fst ` set (pushes e post S st)"
    if "jsmap_get (localMap_of (quotes st)) (q_id l) = Some l \<and> q_pendingSync l \<and>
      jsmap_get (serverMap_of S) (q_id l) = Some s \<and> (\<forall>k. \<not> is_conflict e l s k)" for l s
  proof -
    from that have loc: "map_of (localMap_of (quotes st)) (q_id l) = Some l"
      and srv: "map_of (serverMap_of S) (q_id l) = Some s" by (simp_all add: jsmap_get_def)
    from merged_both [OF srv loc, of e "ticks st"] that
    have "map_of (localMap (merge_phase e (quotes st) S (ticks st))) (q_id l) = Some l"
      by (auto simp: resolve_def)
    then have "l \<in> set ?m"
      by (auto simp: merged_of_def jsmap_values_def dest!: map_of_SomeD intro: rev_image_eqI)
    with that show ?thesis unfolding img by (simp add: needs_post_def)
  qed
  have 6: "\<forall>p \<in> set (pushes e post S st). q_id (fst p) \<noteq> q_id l"
    if "jsmap_get (localMap_of (quotes st)) (q_id l) = Some l \<and>
      jsmap_get (serverMap_of S) (q_id l) = Some s \<and> (\<forall>k. is_conflict e l s k)" for l s
  proof
    fix p
    assume p: "p \<in> set (pushes e post S st)"
    from that have loc: "map_of (localMap_of (quotes st)) (q_id l) = Some l"
      and srv: "map_of (serverMap_of S) (q_id l) = Some s"
      and confl: "\<forall>k. is_conflict e l s k"
      by (simp_all add: jsmap_get_def)
    from conflicting_not_pushed [OF loc srv confl p] show "q_id (fst p) \<noteq> q_id l" .
  qed
  from rec 2 3 4 5 6 show ?thesis by blast
qed

text \<open>
  C10 as stated fails for a record of the local store that conflicts with the server's:
  \<open>local_a_pending\<close> has \<open>pendingSync\<close> true and the snapshot lists its id, with
  another text and another time; the merge replaces it by the server's version and the
  pass posts nothing.
\<close>

theorem pending_conflict_counterexample:
  "jsmap_get (localMap_of (quotes (ex_state [local_a_pending]))) ''a'' = Some local_a_pending \<and>
   q_pendingSync local_a_pending \<and>
   jsmap_has (serverMap_of [remote_a]) (q_id local_a_pending) \<and>
   pushes ex_env post_ok [remote_a] (ex_state [local_a_pending]) = [] \<and>
   stored ''a'' (quotes (snd (syncWithServer ex_env (fetch_list [remote_a]) post_ok
       (ex_state [local_a_pending])))) =
     Some \<lparr> q_id = ''a'', q_id_type = IdString, q_text = ''Y'', q_category = ''N'',
            q_lastModified = ''200'', q_pendingSync = False \<rparr>"
  by code_simp

theorem pending_records_pushed_witness:
  "jsmap_has (serverMap_of [remote_1]) (q_id local_p) \<and> q_pendingSync local_p \<and>
   local_p \<in> set (merged_of ex_env (quotes (ex_state [local_p, local_new])) [remote_1] 0) \<and>
   local_p \<in> fst ` set (pushes ex_env post_ok [remote_1] (ex_state [local_p, local_new])) \<and>
   local_new \<in> fst ` set (pushes ex_env post_ok [remote_1] (ex_state [local_p, local_new])) \<and>
   pushes ex_env post_ok [remote_a] (ex_state [local_a_pending, local_new]) = [(local_new, True)] \<and>
   (local_new, True) \<in> set (pushes ex_env post_ok [remote_a] (ex_state [local_a_pending, local_new])) \<and>
   q_id (fst (local_new, True)) \<noteq> q_id local_a_pending"
proof -
  have h: "jsmap_has (serverMap_of [remote_1]) (q_id local_p)" and p: "q_pendingSync local_p"
    and m: "local_p \<in> set (merged_of ex_env (quotes (ex_state [local_p, local_new])) [remote_1]
        (ticks (ex_state [local_p, local_new])))"
    and n: "local_new \<in> set (merged_of ex_env (quotes (ex_state [local_p, local_new])) [remote_1]
        (ticks (ex_state [local_p, local_new])))"
    and o: "\<not> jsmap_has (serverMap_of [remote_1]) (q_id local_new)"
    and t: "ticks (ex_state [local_p, local_new]) = 0"
    by code_simp+
  from pending_records_pushed [of ex_env post_ok "[remote_1]" "ex_state [local_p, local_new]"]
    h p m n o t
  have 1: "local_p \<in> fst ` set (pushes ex_env post_ok [remote_1] (ex_state [local_p, local_new]))"
    and 2: "local_new \<in> fst ` set (pushes ex_env post_ok [remote_1]
        (ex_state [local_p, local_new]))"
    by auto
  have l: "jsmap_get (localMap_of (quotes (ex_state [local_a_pending, local_new])))
      (q_id local_a_pending) = Some local_a_pending"
    and s: "jsmap_get (serverMap_of [remote_a]) (q_id local_a_pending) = Some remote_a"
    and tr: "pushes ex_env post_ok [remote_a] (ex_state [local_a_pending, local_new])
      = [(local_new, True)]"
    by code_simp+
  have "s_lastModified remote_a \<noteq> []" by code_simp
  moreover have "strict_neq (getTime ex_env (q_lastModified local_a_pending))
      (getTime ex_env (s_lastModified remote_a)) \<and> q_text local_a_pending \<noteq> s_text remote_a"
    by code_simp
  ultimately have c: "\<forall>k. is_conflict ex_env local_a_pending remote_a k"
    by (simp add: is_conflict_truthy)
  from tr have mem: "(local_new, True)
      \<in> set (pushes ex_env post_ok [remote_a] (ex_state [local_a_pending, local_new]))"
    by simp
  from pending_records_pushed [of ex_env post_ok "[remote_a]"
      "ex_state [local_a_pending, local_new]"] l s c mem
  have 3: "q_id (fst (local_new, True)) \<noteq> q_id local_a_pending" by blast
  from h p m t 1 2 tr mem 3 show ?thesis by simp
qed

text \<open>
  C6, as amended. Once the snapshot \<open>S\<close> is there, the pass posts every candidate once,
  in the order of the store, whatever the outcomes of the posts before it. A record whose
  post succeeded ends the pass with \<open>pendingSync\<close> false, one whose post failed with
  \<open>pendingSync\<close> true. A record whose post failed is in the committed store; in the
  next pass (any post \<open>post2\<close>, any snapshot \<open>S2\<close>) it is posted again, once, and the
  store still holds one record with its id, provided \<open>S2\<close> holds no record that
  conflicts with it, as when the server still lacks its id.
\<close>

theorem push_outcomes_and_retry:
  assumes pushed: "(q, ok) \<in> set (pushes e post S st)"
  shows "map fst (pushes e post S st)
           = map ((!) (merged_of e (quotes st) S (ticks st)))
               (pendingToPost (serverMap_of S) (merged_of e (quotes st) S (ticks st))) \<and>
         stored (q_id q) (quotes (snd (syncWithServer_body e post S st)))
           = Some (q\<lparr> q_pendingSync := \<not> ok \<rparr>) \<and>
         (\<not> ok \<and>
          (\<forall>s k. jsmap_get (serverMap_of S2) (q_id q) = Some s \<longrightarrow> \<not> is_conflict e q s k) \<longrightarrow>
            map fst (filter (\<lambda>p. q_id (fst p) = q_id q)
                (pushes e post2 S2 ((snd (syncWithServer_body e post S st))\<lparr> world := w2 \<rparr>)))
              = [q\<lparr> q_pendingSync := True \<rparr>] \<and>
            length (filter (\<lambda>x. q_id x = q_id q)
                (quotes (snd (syncWithServer_body e post2 S2
                   ((snd (syncWithServer_body e post S st))\<lparr> world := w2 \<rparr>))))) = 1)"
proof -
  let ?st1 = "(snd (syncWithServer_body e post S st))\<lparr> world := w2 \<rparr>"
  have 1: "map fst (pushes e post S st)
           = map ((!) (merged_of e (quotes st) S (ticks st)))
               (pendingToPost (serverMap_of S) (merged_of e (quotes st) S (ticks st)))"
    by (simp add: pushes_records map_nth_pendingToPost)
  have 2: "stored (q_id q) (quotes (snd (syncWithServer_body e post S st)))
           = Some (q\<lparr> q_pendingSync := \<not> ok \<rparr>)"
    by (rule pushed_stored [OF pushed])
  have 3: "map fst (filter (\<lambda>p. q_id (fst p) = q_id q) (pushes e post2 S2 ?st1))
              = [q\<lparr> q_pendingSync := True \<rparr>] \<and>
           length (filter (\<lambda>x. q_id x = q_id q)
                (quotes (snd (syncWithServer_body e post2 S2 ?st1)))) = 1"
    if "\<not> ok"
      and calm: "\<forall>s k. jsmap_get (serverMap_of S2) (q_id q) = Some s \<longrightarrow> \<not> is_conflict e q s k"
  proof -
    have d: "distinct (map q_id (quotes ?st1))"
      by (simp add: body_ids distinct_merged)
    have held: "stored (q_id q) (quotes ?st1) = Some (q\<lparr> q_pendingSync := True \<rparr>)"
      using 2 that(1) by simp
    have p: "q_pendingSync (q\<lparr> q_pendingSync := True \<rparr>)" by simp
    have c: "\<forall>s k. jsmap_get (serverMap_of S2) (q_id q) = Some s \<longrightarrow>
        \<not> is_conflict e (q\<lparr> q_pendingSync := True \<rparr>) s k"
      using calm by (simp add: is_conflict_pending)
    from retried [OF d held p c] show ?thesis by blast
  qed
  from 1 2 3 show ?thesis by blast
qed

text \<open>
  C6 as stated fails for the retry when the next snapshot conflicts: the post of
  \<open>local_new\<close> fails and it stays in the store with \<open>pendingSync\<close> true; the next
  pass finds \<open>remote_n\<close>, with the same id, another text and another time, replaces the
  record by the server's version and posts nothing.
\<close>

theorem retry_conflict_counterexample:
  "pushes ex_env post_fails [] (ex_state [local_new]) = [(local_new, False)] \<and>
   quotes (snd (syncWithServer_body ex_env post_fails [] (ex_state [local_new]))) = [local_new] \<and>
   q_pendingSync local_new \<and>
   pushes ex_env post_ok [remote_n]
     (snd (syncWithServer_body ex_env post_fails [] (ex_state [local_new]))) = [] \<and>
   quotes (snd (syncWithServer_body ex_env post_ok [remote_n]
     (snd (syncWithServer_body ex_env post_fails [] (ex_state [local_new])))))
     = [\<lparr> q_id = ''n'', q_id_type = IdString, q_text = ''other'', q_category = ''N'',
          q_lastModified = ''200'', q_pendingSync = False \<rparr>]"
  by code_simp

theorem push_outcomes_and_retry_witness:
  "pushes ex_env post_fails [remote_1] (ex_state [local_p, local_new])
     = [(local_p, False), (local_new, False)] \<and>
   stored ''n'' (quotes (snd (syncWithServer_body ex_env post_fails [remote_1]
       (ex_state [local_p, local_new])))) = Some (local_new\<lparr> q_pendingSync := True \<rparr>) \<and>
   map fst (filter (\<lambda>p. q_id (fst p) = ''n'')
       (pushes ex_env post_ok [remote_1]
          ((snd (syncWithServer_body ex_env post_fails [remote_1]
                   (ex_state [local_p, local_new])))\<lparr> world := () \<rparr>)))
     = [local_new\<lparr> q_pendingSync := True \<rparr>]"
proof -
  have tr: "pushes ex_env post_fails [remote_1] (ex_state [local_p, local_new])
     = [(local_p, False), (local_new, False)]"
    by code_simp
  then have m: "(local_new, False) \<in> set (pushes ex_env post_fails [remote_1]
      (ex_state [local_p, local_new]))" by simp
  have i: "q_id local_new = ''n''" by code_simp
  have "jsmap_get (serverMap_of [remote_1]) (q_id local_new) = None" by code_simp
  then have c: "\<forall>s k. jsmap_get (serverMap_of [remote_1]) (q_id local_new) = Some s \<longrightarrow>
      \<not> is_conflict ex_env local_new s k" by simp
  from push_outcomes_and_retry [OF m, of "[remote_1]" post_ok "()"] c tr
  show ?thesis by (simp add: i)
qed

text \<open>
  C5. Two passes in a row against the same snapshot \<open>S\<close>, whose records all carry a
  lastModified, with no local edit in between: the second pass detects no conflict and
  notifies nothing, it leaves the registry as the first pass left it, and every record of
  the store keeps its id and its lastModified.
\<close>

theorem second_pass_changes_nothing:
  assumes first: "fetch (quotes st) (world st) = (Some S, w1)"
    and second: "fetch (quotes (snd (syncWithServer e fetch post st)))
        (world (snd (syncWithServer e fetch post st))) = (Some S, w2)"
    and truthy: "\<forall>s \<in> set S. s_lastModified s \<noteq> []"
  shows "fst (syncWithServer e fetch post (snd (syncWithServer e fetch post st))) = None \<and>
         pendingConflicts (snd (syncWithServer e fetch post (snd (syncWithServer e fetch post st))))
           = pendingConflicts (snd (syncWithServer e fetch post st)) \<and>
         map q_id (quotes (snd (syncWithServer e fetch post (snd (syncWithServer e fetch post st)))))
           = map q_id (quotes (snd (syncWithServer e fetch post st))) \<and>
         map q_lastModified
             (quotes (snd (syncWithServer e fetch post (snd (syncWithServer e fetch post st)))))
           = map q_lastModified (quotes (snd (syncWithServer e fetch post st)))"
proof -
  let ?st0 = "st\<lparr> world := w1 \<rparr>"
  let ?st1 = "snd (syncWithServer_body e post S ?st0)"
  let ?st1' = "?st1\<lparr> world := w2 \<rparr>"
  have s1: "syncWithServer e fetch post st = syncWithServer_body e post S ?st0"
    by (rule sync_fetch_ok [where fetch = fetch, OF first])
  have s2: "syncWithServer e fetch post ?st1 = syncWithServer_body e post S ?st1'"
    using second unfolding s1 by (rule sync_fetch_ok [where fetch = fetch])
  have d: "distinct (map q_id (quotes ?st1))" by (simp add: body_ids distinct_merged)
  have same: "\<forall>i. map_option (\<lambda>q. (q_text q, q_lastModified q)) (stored i (quotes ?st1))
       = map_option (\<lambda>q. (q_text q, q_lastModified q))
           (map_of (localMap (merge_phase e (quotes ?st0) S (ticks ?st0))) i)"
    by (simp add: stored_body_fields)
  have ms: "merge_phase e (quotes ?st1) S (ticks ?st1) = start_state (quotes ?st1) (ticks ?st1)"
    by (rule second_merge_noop [OF truthy d same])
  have m: "merged_of e (quotes ?st1) S (ticks ?st1) = quotes ?st1"
    using d by (simp add: merged_of_def ms start_state_def localMap_of_distinct
        jsmap_values_def comp_def)
  have 1: "fst (syncWithServer_body e post S ?st1') = None"
    by (simp add: body_notification ms start_state_def)
  have 2: "pendingConflicts (snd (syncWithServer_body e post S ?st1')) = pendingConflicts ?st1"
    by (simp add: body_pendingConflicts ms start_state_def)
  have "quotes (snd (syncWithServer_body e post S ?st1'))
      = fst (post_loop post
          (pendingToPost (serverMap_of S) (merged_of e (quotes ?st1) S (ticks ?st1)))
          (merged_of e (quotes ?st1) S (ticks ?st1), w2))"
    using body_quotes [of e post S ?st1'] by simp
  then have q2: "quotes (snd (syncWithServer_body e post S ?st1'))
      = fst (post_loop post (pendingToPost (serverMap_of S) (quotes ?st1)) (quotes ?st1, w2))"
    by (simp only: m)
  have 3: "map q_id (quotes (snd (syncWithServer_body e post S ?st1'))) = map q_id (quotes ?st1)"
    unfolding q2
    using post_loop_map [of q_id post "pendingToPost (serverMap_of S) (quotes ?st1)"
        "(quotes ?st1, w2)"] by simp
  have 4: "map q_lastModified (quotes (snd (syncWithServer_body e post S ?st1')))
      = map q_lastModified (quotes ?st1)"
    unfolding q2
    using post_loop_map [of q_lastModified post "pendingToPost (serverMap_of S) (quotes ?st1)"
        "(quotes ?st1, w2)"] by simp
  from 1 2 3 4 show ?thesis unfolding s1 s2 by simp
qed

theorem second_pass_changes_nothing_witness:
  "s_lastModified remote_a \<noteq> [] \<and> s_lastModified remote_b \<noteq> [] \<and>
   fst (syncWithServer ex_env (fetch_list [remote_a, remote_b]) post_ok
     (snd (syncWithServer ex_env (fetch_list [remote_a, remote_b]) post_ok (ex_state [local_a]))))
     = None \<and>
   pendingConflicts (snd (syncWithServer ex_env (fetch_list [remote_a, remote_b]) post_ok
     (snd (syncWithServer ex_env (fetch_list [remote_a, remote_b]) post_ok (ex_state [local_a])))))
     = [\<lparr> c_id = ''a'', c_local = local_a, c_server = remote_a \<rparr>] \<and>
   map q_lastModified (quotes (snd (syncWithServer ex_env (fetch_list [remote_a, remote_b]) post_ok
     (snd (syncWithServer ex_env (fetch_list [remote_a, remote_b]) post_ok (ex_state [local_a]))))))
     = [''200'', ''200'']"
proof -
  have f: "fetch_list [remote_a, remote_b] qs u = (Some [remote_a, remote_b], ())"
    for qs and u :: unit
    by (simp add: fetch_list_def)
  have t: "\<forall>s \<in> set [remote_a, remote_b]. s_lastModified s \<noteq> []"
    by (simp add: remote_a_def remote_b_def)
  have c: "pendingConflicts (snd (syncWithServer ex_env (fetch_list [remote_a, remote_b]) post_ok
      (ex_state [local_a]))) = [\<lparr> c_id = ''a'', c_local = local_a, c_server = remote_a \<rparr>]"
    by code_simp
  have l: "map q_lastModified (quotes (snd (syncWithServer ex_env
      (fetch_list [remote_a, remote_b]) post_ok (ex_state [local_a])))) = [''200'', ''200'']"
    by code_simp
  from second_pass_changes_nothing [where fetch = "fetch_list [remote_a, remote_b]"
      and post = post_ok and e = ex_env, OF f f t] t c l
  show ?thesis by simp
qed




text \<open>
  C8, as amended. A conflict entry leaves the registry when it is resolved by hand:
  accepting the server's version removes the entries of its id, keeping the local version
  removes them when the record is in the store and its post succeeds (and leaves the
  registry as it is when the post fails or the record is gone), and both resolve-all
  actions empty the registry. A pass that detects a conflict replaces the registry by the
  conflicts it detected; a pass that detects none leaves the registry as it was.
\<close>

theorem registry_lifecycle:
  "(\<forall>c \<in> set (pendingConflicts (snd (acceptServer conf st))). c_id c \<noteq> c_id conf) \<and>
   (stored (c_id conf) (quotes st) = Some l \<and>
    fst (post (l\<lparr> q_lastModified := nowISO e (ticks st) \<rparr>) (world st)) \<longrightarrow>
      (\<forall>c \<in> set (pendingConflicts (snd (keepLocal e post conf st))). c_id c \<noteq> c_id conf)) \<and>
   (stored (c_id conf) (quotes st) = Some l \<and>
    \<not> fst (post (l\<lparr> q_lastModified := nowISO e (ticks st) \<rparr>) (world st)) \<longrightarrow>
      pendingConflicts (snd (keepLocal e post conf st)) = pendingConflicts st) \<and>
   (stored (c_id conf) (quotes st) = None \<longrightarrow>
      pendingConflicts (snd (keepLocal e post conf st)) = pendingConflicts st) \<and>
   pendingConflicts (snd (resolveAllServer st)) = [] \<and>
   pendingConflicts (snd (resolveAllLocal e post st)) = [] \<and>
   (conflicts (merge_phase e (quotes st) S (ticks st)) \<noteq> [] \<longrightarrow>
      pendingConflicts (snd (syncWithServer_body e post S st))
        = conflicts (merge_phase e (quotes st) S (ticks st))) \<and>
   (conflicts (merge_phase e (quotes st) S (ticks st)) = [] \<longrightarrow>
      pendingConflicts (snd (syncWithServer_body e post S st)) = pendingConflicts st)"
  by (simp add: acceptServer_def keepLocal_def resolveAllServer_def resolveAllLocal_def
      body_registry stored_def Let_def)

text \<open>
  C8 as stated fails: the registry of \<open>stale_state\<close> holds an entry of an earlier
  pass, the pass against \<open>[remote_1]\<close> finds no pair that diverges, and the entry is
  still in the registry after it.
\<close>

theorem stale_conflict_counterexample:
  "conflicts (merge_phase ex_env (quotes stale_state) [remote_1] (ticks stale_state)) = [] \<and>
   pendingConflicts stale_state = [stale_entry] \<and>
   pendingConflicts (snd (syncWithServer ex_env (fetch_list [remote_1]) post_ok stale_state))
     = [stale_entry]"
  by code_simp

theorem registry_lifecycle_witness:
  "pendingConflicts (snd (acceptServer stale_entry stale_state)) = [] \<and>
   pendingConflicts (snd (keepLocal ex_env post_ok stale_entry stale_state)) = [] \<and>
   pendingConflicts (snd (keepLocal ex_env post_fails stale_entry stale_state)) = [stale_entry] \<and>
   pendingConflicts (snd (syncWithServer_body ex_env post_ok [remote_a] (stale_state\<lparr> quotes := [local_a] \<rparr>)))
     = [\<lparr> c_id = ''a'', c_local = local_a, c_server = remote_a \<rparr>] \<and>
   pendingConflicts (snd (syncWithServer_body ex_env post_ok [remote_1] stale_state)) = [stale_entry]"
proof -
  have s: "stored (c_id stale_entry) (quotes stale_state) = Some local_1" by code_simp
  have ok: "fst (post_ok (local_1\<lparr> q_lastModified := nowISO ex_env (ticks stale_state) \<rparr>)
      (world stale_state))" by code_simp
  have no: "\<not> fst (post_fails (local_1\<lparr> q_lastModified := nowISO ex_env (ticks stale_state) \<rparr>)
      (world stale_state))" by code_simp
  have c1: "conflicts (merge_phase ex_env (quotes (stale_state\<lparr> quotes := [local_a] \<rparr>)) [remote_a]
      (ticks (stale_state\<lparr> quotes := [local_a] \<rparr>)))
      = [\<lparr> c_id = ''a'', c_local = local_a, c_server = remote_a \<rparr>]" by code_simp
  have c0: "conflicts (merge_phase ex_env (quotes stale_state) [remote_1] (ticks stale_state)) = []"
    by code_simp
  have p: "pendingConflicts stale_state = [stale_entry]" by code_simp
  have a: "pendingConflicts (snd (acceptServer stale_entry stale_state)) = []" by code_simp
  have k: "pendingConflicts (snd (keepLocal ex_env post_ok stale_entry stale_state)) = []"
    by code_simp
  from registry_lifecycle [of stale_entry stale_state local_1 post_fails ex_env "[remote_1]"]
    s no c0 p
  have 1: "pendingConflicts (snd (keepLocal ex_env post_fails stale_entry stale_state)) = [stale_entry]"
    and 2: "pendingConflicts (snd (syncWithServer_body ex_env post_fails [remote_1] stale_state)) = [stale_entry]"
    by simp_all
  from registry_lifecycle [of stale_entry "stale_state\<lparr> quotes := [local_a] \<rparr>" local_1 post_ok ex_env "[remote_a]"]
    c1
  have 3: "pendingConflicts (snd (syncWithServer_body ex_env post_ok [remote_a] (stale_state\<lparr> quotes := [local_a] \<rparr>)))
     = [\<lparr> c_id = ''a'', c_local = local_a, c_server = remote_a \<rparr>]"
    by simp
  from registry_lifecycle [of stale_entry stale_state local_1 post_ok ex_env "[remote_1]"] c0 p
  have 4: "pendingConflicts (snd (syncWithServer_body ex_env post_ok [remote_1] stale_state)) = [stale_entry]"
    by simp
  from a k 1 3 4 show ?thesis by simp
qed
end
